theory Spec2Isabelle
  imports Complex_Main "HOL-Library.Sublist" "HOL-Library.Product_Lexorder"
    "HOL-Library.Multiset"
begin

section \<open>Strings\<close>

text \<open>
  Python strings are modelled as ASCII text. Case conversion maps the 26 letters and
  leaves every other character unchanged; \<^verbatim>\<open>sub in s\<close> is the contiguous-substring test.
\<close>

definition ascii_uppercase :: string where
  "ascii_uppercase = ''ABCDEFGHIJKLMNOPQRSTUVWXYZ''"

definition ascii_lowercase :: string where
  "ascii_lowercase = ''abcdefghijklmnopqrstuvwxyz''"

definition digits :: string where
  "digits = ''0123456789''"

definition upper_char :: "char \<Rightarrow> char" where
  "upper_char c = (case map_of (zip ascii_lowercase ascii_uppercase) c of
                     Some d \<Rightarrow> d | None \<Rightarrow> c)"

definition lower_char :: "char \<Rightarrow> char" where
  "lower_char c = (case map_of (zip ascii_uppercase ascii_lowercase) c of
                     Some d \<Rightarrow> d | None \<Rightarrow> c)"

definition upper :: "string \<Rightarrow> string" where
  "upper s = map upper_char s"

definition lower :: "string \<Rightarrow> string" where
  "lower s = map lower_char s"

fun contains :: "string \<Rightarrow> string \<Rightarrow> bool" where
  "contains sub [] = (sub = [])"
| "contains sub (c # cs) = (prefix sub (c # cs) \<or> contains sub cs)"

lemma contains_sublist: "contains sub s = sublist sub s"
  by (induction s) (auto simp: sublist_Cons_right)




section \<open>Header Inspector: \<^verbatim>\<open>find_column_by_keywords\<close>\<close>

text \<open>
  The first loop returns the first column whose uppercased name contains every
  (uppercased) keyword. The second loop keeps the column with the strictly largest
  number of matching keywords seen so far, and the result is that column unless the
  largest count is 0.
\<close>

definition keyword_count :: "string list \<Rightarrow> string \<Rightarrow> nat" where
  "keyword_count keywords_list col =
     length (filter (\<lambda>k. contains (upper k) (upper col)) keywords_list)"

definition all_keywords :: "string list \<Rightarrow> string \<Rightarrow> bool" where
  "all_keywords keywords_list col =
     list_all (\<lambda>k. contains (upper k) (upper col)) keywords_list"

fun best_loop :: "string list \<Rightarrow> string list \<Rightarrow> string option \<times> nat \<Rightarrow> string option \<times> nat" where
  "best_loop keywords_list [] (best, best_count) = (best, best_count)"
| "best_loop keywords_list (col # cols) (best, best_count) =
     (let count = keyword_count keywords_list col
      in if count > best_count then best_loop keywords_list cols (Some col, count)
         else best_loop keywords_list cols (best, best_count))"

definition find_column_by_keywords :: "string list \<Rightarrow> string list \<Rightarrow> string option" where
  "find_column_by_keywords cols keywords_list =
     (case find (all_keywords keywords_list) cols of
        Some col \<Rightarrow> Some col
      | None \<Rightarrow>
          (case best_loop keywords_list cols (None, 0) of
             (best, best_count) \<Rightarrow> if best_count > 0 then best else None))"


subsection \<open>Properties of \<^verbatim>\<open>find_column_by_keywords\<close>\<close>

lemma best_loop_inv:
  "best_loop kws cols (b, n) = (b', n') \<Longrightarrow>
     n \<le> n' \<and> (\<forall>c \<in> set cols. keyword_count kws c \<le> n') \<and>
     (if \<forall>c \<in> set cols. keyword_count kws c \<le> n then b' = b \<and> n' = n
      else \<exists>i < length cols. b' = Some (cols ! i) \<and> keyword_count kws (cols ! i) = n' \<and>
             (\<forall>j < i. keyword_count kws (cols ! j) < n'))"
proof (induction cols arbitrary: b n)
  case Nil
  then show ?case by simp
next
  case (Cons x xs)
  let ?k = "keyword_count kws"
  define m where "m = (if ?k x > n then ?k x else n)"
  define a where "a = (if ?k x > n then Some x else b)"
  from Cons.prems have run: "best_loop kws xs (a, m) = (b', n')"
    by (simp add: a_def m_def Let_def split: if_splits)
  note ih = Cons.IH [OF run]
  have mn: "n \<le> m" "?k x \<le> m" by (simp_all add: m_def)
  from ih have le: "m \<le> n'" and bound: "\<forall>c \<in> set xs. ?k c \<le> n'" by simp_all
  have c1: "n \<le> n'" using mn le by simp
  have c2: "\<forall>c \<in> set (x # xs). ?k c \<le> n'" using bound mn le by simp
  have c3: "if \<forall>c \<in> set (x # xs). ?k c \<le> n then b' = b \<and> n' = n
      else \<exists>i < length (x # xs). b' = Some ((x # xs) ! i) \<and> ?k ((x # xs) ! i) = n' \<and>
             (\<forall>j < i. ?k ((x # xs) ! j) < n')"
  proof (cases "\<forall>c \<in> set xs. ?k c \<le> m")
    case True
    with ih have eq: "b' = a" "n' = m" by simp_all
    show ?thesis
    proof (cases "?k x > n")
      case True
      then have "b' = Some ((x # xs) ! 0) \<and> ?k ((x # xs) ! 0) = n' \<and>
             (\<forall>j < 0. ?k ((x # xs) ! j) < n')"
        using eq by (simp add: a_def m_def)
      then have "\<exists>i < length (x # xs). b' = Some ((x # xs) ! i) \<and> ?k ((x # xs) ! i) = n' \<and>
             (\<forall>j < i. ?k ((x # xs) ! j) < n')"
        by (intro exI [of _ 0]) simp
      moreover have "\<not> (\<forall>c \<in> set (x # xs). ?k c \<le> n)" using True by simp
      ultimately show ?thesis by presburger
    next
      case False
      then have "m = n" "a = b" by (simp_all add: m_def a_def)
      with \<open>\<forall>c \<in> set xs. ?k c \<le> m\<close> False eq show ?thesis by simp
    qed
  next
    case False
    with ih obtain i where i: "i < length xs" "b' = Some (xs ! i)"
      "?k (xs ! i) = n'" "\<forall>j < i. ?k (xs ! j) < n'"
      by auto
    from False bound have "m < n'"
      by (meson le_less_trans not_le)
    with mn have big: "?k x < n'" "n < n'" by simp_all
    have before: "\<forall>j < Suc i. ?k ((x # xs) ! j) < n'"
    proof (intro allI impI)
      fix j assume "j < Suc i"
      then show "?k ((x # xs) ! j) < n'"
        using i(4) big(1) by (cases j) simp_all
    qed
    have "Suc i < length (x # xs) \<and> b' = Some ((x # xs) ! Suc i) \<and>
          ?k ((x # xs) ! Suc i) = n' \<and> (\<forall>j < Suc i. ?k ((x # xs) ! j) < n')"
      using i before by simp
    then have ex: "\<exists>i < length (x # xs). b' = Some ((x # xs) ! i) \<and> ?k ((x # xs) ! i) = n' \<and>
             (\<forall>j < i. ?k ((x # xs) ! j) < n')"
      by blast
    have "\<not> (\<forall>c \<in> set (x # xs). ?k c \<le> n)"
    proof
      assume "\<forall>c \<in> set (x # xs). ?k c \<le> n"
      then have "?k (xs ! i) \<le> n" using i(1) by simp
      with i(3) big(2) show False by simp
    qed
    with ex show ?thesis by presburger
  qed
  from c1 c2 c3 show ?case by blast
qed


lemma best_loop_result:
  assumes "best_loop kws cols (None, 0) = (b, n)"
  shows "(\<forall>c \<in> set cols. keyword_count kws c = 0) \<longrightarrow> n = 0"
    and "(\<exists>c \<in> set cols. 0 < keyword_count kws c) \<longrightarrow>
      0 < n \<and> (\<exists>i < length cols. b = Some (cols ! i) \<and>
        (\<forall>j < length cols. keyword_count kws (cols ! j) \<le> keyword_count kws (cols ! i)) \<and>
        (\<forall>j < i. keyword_count kws (cols ! j) < keyword_count kws (cols ! i)))"
proof -
  note inv = best_loop_inv [OF assms]
  show "(\<forall>c \<in> set cols. keyword_count kws c = 0) \<longrightarrow> n = 0"
    using inv by simp
  show "(\<exists>c \<in> set cols. 0 < keyword_count kws c) \<longrightarrow>
      0 < n \<and> (\<exists>i < length cols. b = Some (cols ! i) \<and>
        (\<forall>j < length cols. keyword_count kws (cols ! j) \<le> keyword_count kws (cols ! i)) \<and>
        (\<forall>j < i. keyword_count kws (cols ! j) < keyword_count kws (cols ! i)))"
  proof
    assume ex: "\<exists>c \<in> set cols. 0 < keyword_count kws c"
    then have "\<not> (\<forall>c \<in> set cols. keyword_count kws c \<le> 0)" by auto
    with inv have "\<exists>i < length cols. b = Some (cols ! i) \<and> keyword_count kws (cols ! i) = n \<and>
             (\<forall>j < i. keyword_count kws (cols ! j) < n)"
      by simp
    then obtain i where i: "i < length cols" "b = Some (cols ! i)"
      "keyword_count kws (cols ! i) = n" "\<forall>j < i. keyword_count kws (cols ! j) < n"
      by blast
    from inv have bound: "\<forall>c \<in> set cols. keyword_count kws c \<le> n" by simp
    from ex bound have "0 < n" by force
    moreover have "\<forall>j < length cols. keyword_count kws (cols ! j) \<le> n"
      using bound by simp
    ultimately show "0 < n \<and> (\<exists>i < length cols. b = Some (cols ! i) \<and>
        (\<forall>j < length cols. keyword_count kws (cols ! j) \<le> keyword_count kws (cols ! i)) \<and>
        (\<forall>j < i. keyword_count kws (cols ! j) < keyword_count kws (cols ! i)))"
      using i by blast
  qed
qed

text \<open>
  C9. (1) When some column contains all keywords, the result is the first such column.
  (2) Otherwise, when some column contains a keyword, the result is the first column
  among those containing the most keywords. (3) When no column contains all keywords
  and no column contains any keyword, the result is \<open>None\<close>. (With an empty keyword
  list every column contains all keywords, so rule (1) applies.)
\<close>

theorem find_column_by_keywords_preference:
  "((\<exists>c \<in> set cols. all_keywords kws c) \<longrightarrow>
      (\<exists>i < length cols. find_column_by_keywords cols kws = Some (cols ! i) \<and>
         all_keywords kws (cols ! i) \<and> (\<forall>j < i. \<not> all_keywords kws (cols ! j))))
   \<and> ((\<forall>c \<in> set cols. \<not> all_keywords kws c) \<and> (\<exists>c \<in> set cols. 0 < keyword_count kws c) \<longrightarrow>
      (\<exists>i < length cols. find_column_by_keywords cols kws = Some (cols ! i) \<and>
         (\<forall>j < length cols. keyword_count kws (cols ! j) \<le> keyword_count kws (cols ! i)) \<and>
         (\<forall>j < i. keyword_count kws (cols ! j) < keyword_count kws (cols ! i))))
   \<and> ((\<forall>c \<in> set cols. \<not> all_keywords kws c \<and> keyword_count kws c = 0) \<longrightarrow>
      find_column_by_keywords cols kws = None)"
proof (intro conjI impI)
  assume "\<exists>c \<in> set cols. all_keywords kws c"
  then obtain c where found: "find (all_keywords kws) cols = Some c"
    by (cases "find (all_keywords kws) cols") (auto simp: find_None_iff)
  then have res: "find_column_by_keywords cols kws = Some c"
    by (simp add: find_column_by_keywords_def)
  from found obtain i where "i < length cols" "all_keywords kws (cols ! i)" "c = cols ! i"
    "\<forall>j < i. \<not> all_keywords kws (cols ! j)"
    unfolding find_Some_iff by blast
  with res show "\<exists>i < length cols. find_column_by_keywords cols kws = Some (cols ! i) \<and>
         all_keywords kws (cols ! i) \<and> (\<forall>j < i. \<not> all_keywords kws (cols ! j))"
    by blast
next
  assume a: "(\<forall>c \<in> set cols. \<not> all_keywords kws c) \<and> (\<exists>c \<in> set cols. 0 < keyword_count kws c)"
  then have none: "find (all_keywords kws) cols = None"
    by (simp add: find_None_iff)
  obtain b n where run: "best_loop kws cols (None, 0) = (b, n)"
    by (cases "best_loop kws cols (None, 0)") auto
  from best_loop_result(2) [OF run] a
  have "0 < n" and ex: "\<exists>i < length cols. b = Some (cols ! i) \<and>
        (\<forall>j < length cols. keyword_count kws (cols ! j) \<le> keyword_count kws (cols ! i)) \<and>
        (\<forall>j < i. keyword_count kws (cols ! j) < keyword_count kws (cols ! i))"
    by blast+
  have "find_column_by_keywords cols kws = b"
    using none run \<open>0 < n\<close> by (simp add: find_column_by_keywords_def)
  with ex show "\<exists>i < length cols. find_column_by_keywords cols kws = Some (cols ! i) \<and>
         (\<forall>j < length cols. keyword_count kws (cols ! j) \<le> keyword_count kws (cols ! i)) \<and>
         (\<forall>j < i. keyword_count kws (cols ! j) < keyword_count kws (cols ! i))"
    by simp
next
  assume a: "\<forall>c \<in> set cols. \<not> all_keywords kws c \<and> keyword_count kws c = 0"
  then have none: "find (all_keywords kws) cols = None"
    by (simp add: find_None_iff)
  obtain b n where run: "best_loop kws cols (None, 0) = (b, n)"
    by (cases "best_loop kws cols (None, 0)") auto
  from best_loop_result(1) [OF run] a have "n = 0" by simp
  then show "find_column_by_keywords cols kws = None"
    using none run by (simp add: find_column_by_keywords_def)
qed



theorem find_column_by_keywords_preference_witness:
  "find_column_by_keywords [''Nama'', ''Alamat''] [''TERLIHAT'', ''PEMAKAIAN''] = None
   \<and> (\<exists>c \<in> set [''Nama'', ''Kondisi Bangunan'', ''Kondisi''].
         all_keywords [''KONDISI'', ''BANGUN''] c)
   \<and> find_column_by_keywords [''Nama'', ''Kondisi'', ''Kondisi Bangunan''] [''KONDISI'', ''BANGUN'']
     = Some ''Kondisi Bangunan''
   \<and> (\<exists>c \<in> set [''Nama'', ''Angka Stan'', ''Foto Meter stan'', ''Stan meter foto''].
         0 < keyword_count [''ANGKA'', ''STAN'', ''FOTO'', ''METER''] c)
   \<and> find_column_by_keywords [''Nama'', ''Angka Stan'', ''Foto Meter stan'', ''Stan meter foto'']
       [''ANGKA'', ''STAN'', ''FOTO'', ''METER''] = Some ''Foto Meter stan''"
proof -
  have h: "\<forall>c \<in> set [''Nama'', ''Alamat''].
      \<not> all_keywords [''TERLIHAT'', ''PEMAKAIAN''] c
      \<and> keyword_count [''TERLIHAT'', ''PEMAKAIAN''] c = 0"
    by code_simp
  have "find_column_by_keywords [''Nama'', ''Alamat''] [''TERLIHAT'', ''PEMAKAIAN''] = None"
    using find_column_by_keywords_preference
      [of "[''Nama'', ''Alamat'']" "[''TERLIHAT'', ''PEMAKAIAN'']"] h
    by blast
  moreover have "\<exists>c \<in> set [''Nama'', ''Kondisi Bangunan'', ''Kondisi''].
         all_keywords [''KONDISI'', ''BANGUN''] c"
    by code_simp
  moreover have "find_column_by_keywords [''Nama'', ''Kondisi'', ''Kondisi Bangunan'']
      [''KONDISI'', ''BANGUN''] = Some ''Kondisi Bangunan''"
    by code_simp
  moreover have "\<exists>c \<in> set [''Nama'', ''Angka Stan'', ''Foto Meter stan'', ''Stan meter foto''].
         0 < keyword_count [''ANGKA'', ''STAN'', ''FOTO'', ''METER''] c"
    by code_simp
  moreover have "find_column_by_keywords
       [''Nama'', ''Angka Stan'', ''Foto Meter stan'', ''Stan meter foto'']
       [''ANGKA'', ''STAN'', ''FOTO'', ''METER''] = Some ''Foto Meter stan''"
    by code_simp
  ultimately show ?thesis by blast
qed



section \<open>Checklist Normalizer: \<^verbatim>\<open>normalize_value_for_compare\<close>\<close>

text \<open>
  Whitespace is what \<^verbatim>\<open>str.strip\<close> and the regular expression class \<^verbatim>\<open>\s\<close> take it to
  be on ASCII text: tab, line feed, vertical tab, form feed, carriage return, the four
  separators \<open>0x1C\<close> to \<open>0x1F\<close>, and the space. A word character (\<^verbatim>\<open>\w\<close>) is a letter, a
  digit or the underscore.
\<close>

definition is_space :: "char \<Rightarrow> bool" where
  "is_space c = (c \<in> set [CHR 0x09, CHR 0x0A, CHR 0x0B, CHR 0x0C, CHR 0x0D,
                            CHR 0x1C, CHR 0x1D, CHR 0x1E, CHR 0x1F, CHR '' ''])"

definition is_word :: "char \<Rightarrow> bool" where
  "is_word c = (c \<in> set (ascii_lowercase @ ascii_uppercase @ digits @ ''_''))"

definition lstrip :: "string \<Rightarrow> string" where
  "lstrip s = dropWhile is_space s"

definition rstrip :: "string \<Rightarrow> string" where
  "rstrip s = rev (dropWhile is_space (rev s))"

definition strip :: "string \<Rightarrow> string" where
  "strip s = rstrip (lstrip s)"

text \<open>\<^verbatim>\<open>re.sub(r'[^a-z0-9\s]', ' ', s)\<close>: every other character becomes a space.\<close>

definition sub_nonalnum :: "string \<Rightarrow> string" where
  "sub_nonalnum s =
     map (\<lambda>c. if c \<in> set ascii_lowercase \<or> c \<in> set digits \<or> is_space c then c
              else CHR '' '') s"

text \<open>
  \<^verbatim>\<open>re.sub(r'\bPAT\b', rep, s)\<close> for a literal, non-empty \<open>PAT\<close>: the string is scanned from
  the left; where \<open>PAT\<close> occurs with a word boundary on both sides it is replaced and the
  scan goes on behind it, otherwise the character is copied. \<open>prev_word\<close> says whether
  the character before the current position is a word character (\<open>False\<close> at the start).
\<close>

definition word_match :: "string \<Rightarrow> bool \<Rightarrow> string \<Rightarrow> bool" where
  "word_match pat prev_word s =
     (prefix pat s \<and> prev_word \<noteq> is_word (hd pat) \<and>
      is_word (last pat) \<noteq> (case drop (length pat) s of [] \<Rightarrow> False | d # _ \<Rightarrow> is_word d))"

function sub_word :: "string \<Rightarrow> string \<Rightarrow> bool \<Rightarrow> string \<Rightarrow> string" where
  "sub_word pat rep prev_word [] = []"
| "sub_word pat rep prev_word (c # cs) =
     (if pat \<noteq> [] \<and> word_match pat prev_word (c # cs)
      then rep @ sub_word pat rep (is_word (last pat)) (drop (length pat) (c # cs))
      else c # sub_word pat rep (is_word c) cs)"
  by pat_completeness auto
termination
  by (relation "measure (\<lambda>(pat, rep, prev_word, s). length s)") auto

text \<open>\<^verbatim>\<open>re.sub(r'\s+', ' ', s)\<close>: every maximal run of whitespace becomes one space.\<close>

function collapse_ws :: "string \<Rightarrow> string" where
  "collapse_ws [] = []"
| "collapse_ws (c # cs) =
     (if is_space c then CHR '' '' # collapse_ws (dropWhile is_space cs)
      else c # collapse_ws cs)"
  by pat_completeness auto
termination
  by (relation "measure length") (auto simp: le_imp_less_Suc length_dropWhile_le)

text \<open>The cleaning steps, up to the chain of tests.\<close>

definition clean :: "string \<Rightarrow> string" where
  "clean raw =
     (let s = lower (strip raw);
          s = sub_nonalnum s;
          s = sub_word ''tdk'' ''tidak'' False s;
          s = sub_word ''t'' ''tidak'' False s;
          s = sub_word ''y'' ''ya'' False s;
          s = sub_word ''yes'' ''ya'' False s;
          s = sub_word ''no'' ''tidak'' False s
      in strip (collapse_ws s))"

text \<open>
  The argument is \<open>None\<close> for a missing value (\<^verbatim>\<open>pd.isna\<close>) and \<open>Some\<close> of the text
  otherwise.
\<close>

definition normalize_value_for_compare :: "string option \<Rightarrow> string" where
  "normalize_value_for_compare v =
     (case v of
        None \<Rightarrow> ''''
      | Some raw \<Rightarrow>
          (let s = clean raw
           in if contains ''tidak'' s \<and> contains ''sesuai'' s then ''tidak sesuai''
              else if contains ''tidak'' s \<and> contains ''terawat'' s then ''tidak terawat''
              else if contains ''sesuai'' s then ''sesuai''
              else if contains ''terawat'' s then ''terawat''
              else if s \<in> set [''ya'', ''tidak''] then s
              else s))"

subsection \<open>Stripping\<close>

lemma space_not_word: "is_space c \<Longrightarrow> \<not> is_word c"
  by (auto simp: is_space_def is_word_def ascii_lowercase_def ascii_uppercase_def digits_def)

lemma rstrip_Nil [simp]: "rstrip [] = []"
  by (simp add: rstrip_def)

lemma rstrip_eq_Nil: "rstrip s = [] \<longleftrightarrow> (\<forall>c \<in> set s. is_space c)"
  by (simp add: rstrip_def dropWhile_eq_Nil_conv)

lemma rstrip_Cons:
  "rstrip (c # cs) = (if rstrip cs = [] \<and> is_space c then [] else c # rstrip cs)"
proof (cases "\<forall>x \<in> set cs. is_space x")
  case True
  then have "rstrip cs = []" by (simp add: rstrip_eq_Nil)
  moreover from True have "rstrip (c # cs) = (if is_space c then [] else [c])"
    by (simp add: rstrip_def dropWhile_append)
  ultimately show ?thesis by simp
next
  case False
  then have "rstrip cs \<noteq> []" by (simp add: rstrip_eq_Nil)
  moreover from False have "rstrip (c # cs) = c # rstrip cs"
    by (simp add: rstrip_def dropWhile_append)
  ultimately show ?thesis by simp
qed

lemma rstrip_lstrip_commute: "rstrip (lstrip s) = lstrip (rstrip s)"
proof (induction s)
  case Nil
  show ?case by (simp add: lstrip_def)
next
  case (Cons c cs)
  then show ?case by (simp add: lstrip_def rstrip_Cons)
qed

lemma lstrip_idem: "lstrip (lstrip s) = lstrip s"
  by (simp add: lstrip_def dropWhile_idem)

lemma rstrip_idem: "rstrip (rstrip s) = rstrip s"
  by (simp add: rstrip_def dropWhile_idem)

lemma strip_idem: "strip (strip s) = strip s"
proof -
  have "strip (strip s) = rstrip (rstrip (lstrip (lstrip s)))"
    by (simp add: strip_def rstrip_lstrip_commute)
  then show ?thesis
    by (simp add: strip_def lstrip_idem rstrip_idem)
qed

lemma set_strip: "set (strip s) \<subseteq> set s"
proof -
  have "set (rstrip t) \<subseteq> set t" for t
    using set_dropWhileD [of _ is_space "rev t"] by (auto simp: rstrip_def)
  moreover have "set (lstrip s) \<subseteq> set s"
    using set_dropWhileD [of _ is_space s] by (auto simp: lstrip_def)
  ultimately show ?thesis
    unfolding strip_def by blast
qed

lemma rstrip_hd: "rstrip cs = d # ds \<Longrightarrow> \<exists>es. cs = d # es"
  by (cases cs) (auto simp: rstrip_Cons split: if_splits)

subsection \<open>Whitespace runs\<close>

fun ws_norm :: "string \<Rightarrow> bool" where
  "ws_norm [] = True"
| "ws_norm (c # cs) =
     ((is_space c \<longrightarrow> c = CHR '' '' \<and> (case cs of [] \<Rightarrow> True | d # _ \<Rightarrow> \<not> is_space d))
      \<and> ws_norm cs)"

lemma ws_norm_fixed: "ws_norm s \<Longrightarrow> collapse_ws s = s"
proof (induction s)
  case Nil
  show ?case by simp
next
  case (Cons c cs)
  then show ?case by (cases cs) auto
qed

lemma ws_norm_collapse: "ws_norm (collapse_ws s)"
proof (induction s rule: collapse_ws.induct)
  case 1
  show ?case by simp
next
  case (2 c cs)
  show ?case
  proof (cases "is_space c")
    case True
    then have "ws_norm (collapse_ws (dropWhile is_space cs))" by (rule 2)
    moreover have "case collapse_ws (dropWhile is_space cs) of [] \<Rightarrow> True | d # _ \<Rightarrow> \<not> is_space d"
    proof (cases "dropWhile is_space cs")
      case Nil
      show ?thesis unfolding Nil by simp
    next
      case (Cons d ds)
      then have "\<not> is_space d" using hd_dropWhile [of is_space cs] by auto
      show ?thesis unfolding Cons using \<open>\<not> is_space d\<close> by simp
    qed
    ultimately show ?thesis using True by simp
  next
    case False
    then have "ws_norm (collapse_ws cs)" by (rule 2)
    with False show ?thesis by simp
  qed
qed

lemma ws_norm_lstrip: "ws_norm s \<Longrightarrow> ws_norm (lstrip s)"
  by (induction s) (auto simp: lstrip_def)

lemma ws_norm_rstrip: "ws_norm s \<Longrightarrow> ws_norm (rstrip s)"
proof (induction s)
  case Nil
  show ?case by simp
next
  case (Cons c cs)
  then have ih: "ws_norm (rstrip cs)" by simp
  show ?case
  proof (cases "rstrip cs = [] \<and> is_space c")
    case True
    then show ?thesis by (simp add: rstrip_Cons)
  next
    case False
    have "case rstrip cs of [] \<Rightarrow> True | d # _ \<Rightarrow> \<not> is_space d" if "is_space c"
    proof (cases "rstrip cs")
      case Nil
      then show ?thesis by simp
    next
      case (Cons d ds)
      then obtain es where "cs = d # es" using rstrip_hd by blast
      with Cons.prems that have "\<not> is_space d" by simp
      with Cons show ?thesis by simp
    qed
    with False ih Cons.prems show ?thesis by (auto simp: rstrip_Cons)
  qed
qed

lemma collapse_strip_collapse:
  "collapse_ws (strip (collapse_ws s)) = strip (collapse_ws s)"
  by (simp add: strip_def ws_norm_fixed ws_norm_rstrip ws_norm_lstrip ws_norm_collapse)

subsection \<open>Words of a string\<close>

text \<open>
  The maximal runs of word characters of a string, and the string with a function
  applied to each of them. A replacement at word boundaries acts on these runs.
\<close>

function tokens :: "string \<Rightarrow> string list" where
  "tokens [] = []"
| "tokens (c # cs) =
     (if is_word c then (c # takeWhile is_word cs) # tokens (dropWhile is_word cs)
      else tokens cs)"
  by pat_completeness auto
termination
  by (relation "measure length") (auto simp: le_imp_less_Suc length_dropWhile_le)

function tokmap :: "(string \<Rightarrow> string) \<Rightarrow> string \<Rightarrow> string" where
  "tokmap f [] = []"
| "tokmap f (c # cs) =
     (if is_word c then f (c # takeWhile is_word cs) @ tokmap f (dropWhile is_word cs)
      else c # tokmap f cs)"
  by pat_completeness auto
termination
  by (relation "measure (\<lambda>(f, s). length s)") (auto simp: le_imp_less_Suc length_dropWhile_le)

definition wordstr :: "string \<Rightarrow> bool" where
  "wordstr w = (w \<noteq> [] \<and> (\<forall>c \<in> set w. is_word c))"

definition bstart :: "string \<Rightarrow> bool" where
  "bstart t = (case t of [] \<Rightarrow> True | d # _ \<Rightarrow> \<not> is_word d)"

lemma bstart_dropWhile: "bstart (dropWhile is_word s)"
  using hd_dropWhile [of is_word s]
  by (cases "dropWhile is_word s") (auto simp: bstart_def simp del: dropWhile_eq_Nil_conv)

lemma bstart_split: "bstart t \<Longrightarrow> takeWhile is_word t = [] \<and> dropWhile is_word t = t"
  by (cases t) (auto simp: bstart_def)

lemma word_append_split:
  assumes "\<forall>c \<in> set u. is_word c" "bstart t"
  shows "takeWhile is_word (u @ t) = u" "dropWhile is_word (u @ t) = t"
  using assms by (simp_all add: takeWhile_append2 dropWhile_append2 bstart_split)

lemma tokmap_append:
  assumes "wordstr u" "bstart t"
  shows "tokmap f (u @ t) = f u @ tokmap f t"
proof -
  from assms(1) obtain a u' where u: "u = a # u'" "is_word a" "\<forall>c \<in> set u'. is_word c"
    by (cases u) (auto simp: wordstr_def)
  then show ?thesis
    using word_append_split [of u' t] assms(2) by simp
qed

lemma tokens_append:
  assumes "wordstr u" "bstart t"
  shows "tokens (u @ t) = u # tokens t"
proof -
  from assms(1) obtain a u' where u: "u = a # u'" "is_word a" "\<forall>c \<in> set u'. is_word c"
    by (cases u) (auto simp: wordstr_def)
  then show ?thesis
    using word_append_split [of u' t] assms(2) by simp
qed

lemma wordstr_run: "is_word c \<Longrightarrow> wordstr (c # takeWhile is_word cs)"
  by (auto simp: wordstr_def dest: set_takeWhileD)

lemma bstart_tokmap: "bstart t \<Longrightarrow> bstart (tokmap f t)"
  by (cases t) (auto simp: bstart_def)

lemma tokens_tokmap:
  assumes "\<And>w. wordstr w \<Longrightarrow> wordstr (f w)"
  shows "tokens (tokmap f s) = map f (tokens s)"
proof (induction s rule: tokens.induct)
  case 1
  show ?case by simp
next
  case (2 c cs)
  show ?case
  proof (cases "is_word c")
    case True
    let ?w = "c # takeWhile is_word cs"
    have "tokens (f ?w @ tokmap f (dropWhile is_word cs))
        = f ?w # tokens (tokmap f (dropWhile is_word cs))"
      by (rule tokens_append) (simp_all add: assms wordstr_run True bstart_tokmap bstart_dropWhile)
    with True 2 show ?thesis by simp
  next
    case False
    with 2 show ?thesis by simp
  qed
qed

lemma tokmap_fixed:
  "(\<And>w. w \<in> set (tokens s) \<Longrightarrow> f w = w) \<Longrightarrow> tokmap f s = s"
proof (induction s rule: tokens.induct)
  case 1
  show ?case by simp
next
  case (2 c cs)
  show ?case
  proof (cases "is_word c")
    case True
    have "f (c # takeWhile is_word cs) = c # takeWhile is_word cs"
      using True by (intro 2) simp
    moreover have "tokmap f (dropWhile is_word cs) = dropWhile is_word cs"
      using True by (intro 2) simp_all
    ultimately show ?thesis using True by simp
  next
    case False
    then have "tokmap f cs = cs" by (intro 2) simp_all
    with False show ?thesis by simp
  qed
qed

subsection \<open>Replacement at word boundaries, by words\<close>

lemma word_match_nonword:
  assumes "wordstr pat" "\<not> is_word c"
  shows "\<not> word_match pat prev_word (c # cs)"
proof
  assume "word_match pat prev_word (c # cs)"
  then have "prefix pat (c # cs)" by (simp add: word_match_def)
  with assms(1) have "hd pat = c" by (cases pat) (auto simp: wordstr_def)
  with assms show False by (cases pat) (auto simp: wordstr_def)
qed

lemma word_match_prev_word:
  assumes "wordstr pat"
  shows "\<not> word_match pat True s"
proof -
  from assms have "is_word (hd pat)" by (cases pat) (auto simp: wordstr_def)
  then show ?thesis by (simp add: word_match_def)
qed

lemma word_match_run:
  assumes "wordstr pat" "is_word c"
  shows "word_match pat False (c # cs) \<longleftrightarrow> c # takeWhile is_word cs = pat"
proof
  assume m: "word_match pat False (c # cs)"
  then obtain r where r: "c # cs = pat @ r" by (auto simp: word_match_def elim: prefixE)
  from assms(1) have "is_word (last pat)" by (simp add: wordstr_def)
  with m r have "bstart r" by (simp add: word_match_def bstart_def split: list.splits)
  with assms(1) have "takeWhile is_word (pat @ r) = pat"
    by (intro word_append_split) (simp_all add: wordstr_def)
  with r assms(2) show "c # takeWhile is_word cs = pat" by (metis takeWhile.simps(2))
next
  assume eq: "c # takeWhile is_word cs = pat"
  define r where "r = dropWhile is_word cs"
  have split: "c # cs = pat @ r"
    by (simp add: r_def flip: eq)
  have br: "bstart r" by (simp add: r_def bstart_dropWhile)
  have d: "drop (length pat) (c # cs) = r"
    unfolding split by simp
  have w: "is_word (hd pat)" "is_word (last pat)"
    using assms by (auto simp: wordstr_def)
  have p: "prefix pat (c # cs)" unfolding split by simp
  have "\<not> (case r of [] \<Rightarrow> False | d # _ \<Rightarrow> is_word d)"
    using br by (cases r) (simp_all add: bstart_def)
  then show "word_match pat False (c # cs)"
    unfolding word_match_def d using w p by simp
qed

lemma sub_word_in_word:
  assumes "wordstr pat"
  shows "sub_word pat rep True s
       = takeWhile is_word s @ sub_word pat rep False (dropWhile is_word s)"
proof (induction s)
  case Nil
  show ?case by simp
next
  case (Cons c cs)
  show ?case
  proof (cases "is_word c")
    case True
    with Cons show ?thesis by (simp add: word_match_prev_word [OF assms])
  next
    case False
    then show ?thesis
      by (simp add: word_match_nonword [OF assms])
  qed
qed

lemma sub_word_tokmap:
  assumes "wordstr pat"
  shows "sub_word pat rep False s = tokmap (\<lambda>w. if w = pat then rep else w) s"
proof (induction s rule: tokens.induct)
  case 1
  show ?case by simp
next
  case (2 c cs)
  let ?f = "\<lambda>w. if w = pat then rep else w"
  show ?case
  proof (cases "is_word c")
    case False
    with 2 show ?thesis by (simp add: word_match_nonword [OF assms])
  next
    case True
    let ?w = "c # takeWhile is_word cs"
    let ?rest = "dropWhile is_word cs"
    have ih: "sub_word pat rep False ?rest = tokmap ?f ?rest" using True by (rule 2)
    have after: "sub_word pat rep True ?rest = sub_word pat rep False ?rest"
      using bstart_split [OF bstart_dropWhile, of cs]
      by (simp add: sub_word_in_word [OF assms])
    show ?thesis
    proof (cases "?w = pat")
      case eq: True
      then have m: "word_match pat False (c # cs)"
        using word_match_run [OF assms True] by simp
      have "c # cs = pat @ ?rest" by (simp flip: eq)
      then have "drop (length pat) (c # cs) = ?rest" by simp
      moreover from assms have "is_word (last pat)" "pat \<noteq> []" by (simp_all add: wordstr_def)
      ultimately have "sub_word pat rep False (c # cs) = rep @ sub_word pat rep True ?rest"
        using m by simp
      with after ih eq True show ?thesis by simp
    next
      case neq: False
      then have "\<not> word_match pat False (c # cs)"
        using word_match_run [OF assms True] by simp
      then have "sub_word pat rep False (c # cs) = c # sub_word pat rep True cs"
        using True by simp
      also have "\<dots> = ?w @ sub_word pat rep False ?rest"
        by (simp add: sub_word_in_word [OF assms])
      finally show ?thesis using ih neq True by simp
    qed
  qed
qed

lemma tokens_sub_word:
  assumes "wordstr pat" "wordstr rep"
  shows "tokens (sub_word pat rep False s) = map (\<lambda>w. if w = pat then rep else w) (tokens s)"
  unfolding sub_word_tokmap [OF assms(1)]
  by (rule tokens_tokmap) (simp add: assms(2))

lemma sub_word_fixed:
  assumes "wordstr pat" "pat \<notin> set (tokens s)"
  shows "sub_word pat rep False s = s"
  unfolding sub_word_tokmap [OF assms(1)]
  using assms(2) by (intro tokmap_fixed) auto

subsection \<open>Stripping and collapsing keep the words\<close>

lemma space_char: "is_space CHR '' ''" "\<not> is_word CHR '' ''"
  by (simp_all add: is_space_def space_not_word)

lemma tokens_lstrip: "tokens (lstrip s) = tokens s"
  by (induction s) (simp_all add: lstrip_def space_not_word)

lemma takeWhile_word_rstrip: "takeWhile is_word (rstrip s) = takeWhile is_word s"
  by (induction s) (simp_all add: rstrip_Cons space_not_word)

lemma dropWhile_word_rstrip: "dropWhile is_word (rstrip s) = rstrip (dropWhile is_word s)"
  by (induction s) (simp_all add: rstrip_Cons space_not_word)

lemma tokens_rstrip: "tokens (rstrip s) = tokens s"
proof (induction s rule: tokens.induct)
  case 1
  show ?case by simp
next
  case (2 c cs)
  show ?case
  proof (cases "is_word c")
    case True
    then have "\<not> is_space c" using space_not_word by blast
    then have "rstrip (c # cs) = c # rstrip cs" by (simp add: rstrip_Cons)
    moreover have "tokens (rstrip (dropWhile is_word cs)) = tokens (dropWhile is_word cs)"
      using True by (rule 2)
    ultimately show ?thesis
      using True by (simp add: takeWhile_word_rstrip dropWhile_word_rstrip)
  next
    case False
    then have ih: "tokens (rstrip cs) = tokens cs" by (rule 2)
    show ?thesis
    proof (cases "rstrip cs = [] \<and> is_space c")
      case True
      with ih have "tokens cs = []" by simp
      with True False show ?thesis by (simp add: rstrip_Cons)
    next
      case False
      then have "rstrip (c # cs) = c # rstrip cs" by (auto simp: rstrip_Cons)
      with ih \<open>\<not> is_word c\<close> show ?thesis by simp
    qed
  qed
qed

lemma tokens_strip: "tokens (strip s) = tokens s"
  by (simp add: strip_def tokens_rstrip tokens_lstrip)

lemma takeWhile_word_collapse: "takeWhile is_word (collapse_ws s) = takeWhile is_word s"
proof (induction s)
  case Nil
  show ?case by simp
next
  case (Cons c cs)
  show ?case
  proof (cases "is_space c")
    case True
    then have "\<not> is_word c" by (rule space_not_word)
    with True show ?thesis by (simp add: space_char)
  next
    case False
    with Cons show ?thesis by simp
  qed
qed

lemma dropWhile_word_collapse:
  "dropWhile is_word (collapse_ws s) = collapse_ws (dropWhile is_word s)"
proof (induction s)
  case Nil
  show ?case by simp
next
  case (Cons c cs)
  show ?case
  proof (cases "is_word c")
    case True
    then have "\<not> is_space c" using space_not_word by blast
    with True Cons show ?thesis by simp
  next
    case False
    then show ?thesis by (simp add: space_char)
  qed
qed

lemma tokens_collapse: "tokens (collapse_ws s) = tokens s"
proof (induction s rule: length_induct)
  case (1 s)
  show ?case
  proof (cases s)
    case Nil
    then show ?thesis by simp
  next
    case (Cons c cs)
    show ?thesis
    proof (cases "is_space c")
      case True
      have "length (dropWhile is_space cs) < length s"
        using Cons length_dropWhile_le [of is_space cs] by simp
      with 1 have "tokens (collapse_ws (dropWhile is_space cs)) = tokens (dropWhile is_space cs)"
        by blast
      also have "\<dots> = tokens cs" using tokens_lstrip [of cs] by (simp add: lstrip_def)
      finally show ?thesis
        using Cons True by (simp add: space_char space_not_word)
    next
      case nsp: False
      show ?thesis
      proof (cases "is_word c")
        case True
        have "length (dropWhile is_word cs) < length s"
          using Cons length_dropWhile_le [of is_word cs] by simp
        with 1 have "tokens (collapse_ws (dropWhile is_word cs)) = tokens (dropWhile is_word cs)"
          by blast
        with Cons True nsp show ?thesis
          by (simp add: takeWhile_word_collapse dropWhile_word_collapse)
      next
        case False
        from 1 Cons have "tokens (collapse_ws cs) = tokens cs" by simp
        with Cons False nsp show ?thesis by simp
      qed
    qed
  qed
qed

subsection \<open>The characters of a cleaned string\<close>

definition is_lowalnum :: "char \<Rightarrow> bool" where
  "is_lowalnum c = (c \<in> set ascii_lowercase \<or> c \<in> set digits)"

lemma set_sub_nonalnum: "\<forall>c \<in> set (sub_nonalnum s). is_lowalnum c \<or> is_space c"
  by (auto simp: sub_nonalnum_def is_lowalnum_def space_char)

lemma lowalnum_word: "is_lowalnum c \<Longrightarrow> is_word c"
  by (auto simp: is_lowalnum_def is_word_def)

lemma not_uppercase:
  "list_all (\<lambda>c. c \<notin> set ascii_uppercase) (ascii_lowercase @ digits @ '' '')"
  by code_simp

lemma lower_char_fixed:
  assumes "is_lowalnum c \<or> c = CHR '' ''"
  shows "lower_char c = c"
proof -
  from assms have "c \<in> set (ascii_lowercase @ digits @ '' '')"
    by (auto simp: is_lowalnum_def)
  with not_uppercase have "c \<notin> set ascii_uppercase"
    unfolding list_all_iff by blast
  moreover have "length ascii_uppercase = length ascii_lowercase"
    by (simp add: ascii_uppercase_def ascii_lowercase_def)
  ultimately have "map_of (zip ascii_uppercase ascii_lowercase) c = None"
    using map_of_zip_is_None [of ascii_uppercase ascii_lowercase c] by blast
  then show ?thesis by (simp add: lower_char_def)
qed

lemma lower_fixed: "\<forall>c \<in> set s. is_lowalnum c \<or> c = CHR '' '' \<Longrightarrow> lower s = s"
  unfolding lower_def by (rule map_idI) (simp add: lower_char_fixed)

lemma sub_nonalnum_fixed:
  "\<forall>c \<in> set s. is_lowalnum c \<or> c = CHR '' '' \<Longrightarrow> sub_nonalnum s = s"
  unfolding sub_nonalnum_def
  by (rule map_idI) (auto simp: is_lowalnum_def space_char)

lemma set_collapse_ws: "set (collapse_ws s) \<subseteq> {c \<in> set s. \<not> is_space c} \<union> {CHR '' ''}"
proof (induction s rule: collapse_ws.induct)
  case 1
  show ?case by simp
next
  case (2 c cs)
  show ?case
  proof (cases "is_space c")
    case True
    then have "set (collapse_ws (dropWhile is_space cs))
        \<subseteq> {c \<in> set (dropWhile is_space cs). \<not> is_space c} \<union> {CHR '' ''}"
      by (rule 2)
    moreover have "set (dropWhile is_space cs) \<subseteq> set cs"
      by (auto dest: set_dropWhileD)
    ultimately show ?thesis using True by auto
  next
    case False
    then have "set (collapse_ws cs) \<subseteq> {c \<in> set cs. \<not> is_space c} \<union> {CHR '' ''}"
      by (rule 2)
    with False show ?thesis by auto
  qed
qed

lemma set_sub_word: "set (sub_word pat rep prev_word s) \<subseteq> set s \<union> set rep"
proof (induction pat rep prev_word s rule: sub_word.induct)
  case (1 pat rep prev_word)
  show ?case by simp
next
  case (2 pat rep prev_word c cs)
  show ?case
  proof (cases "pat \<noteq> [] \<and> word_match pat prev_word (c # cs)")
    case True
    then have "set (sub_word pat rep (is_word (last pat)) (drop (length pat) (c # cs)))
        \<subseteq> set (drop (length pat) (c # cs)) \<union> set rep"
      by (rule 2)
    moreover have "set (drop (length pat) (c # cs)) \<subseteq> set (c # cs)"
      by (rule set_drop_subset)
    ultimately have "set (rep @ sub_word pat rep (is_word (last pat)) (drop (length pat) (c # cs)))
        \<subseteq> set (c # cs) \<union> set rep"
      by (simp only: set_append) blast
    moreover have "sub_word pat rep prev_word (c # cs)
        = rep @ sub_word pat rep (is_word (last pat)) (drop (length pat) (c # cs))"
      using True by simp
    ultimately show ?thesis by (simp only:)
  next
    case False
    then have "set (sub_word pat rep (is_word c) cs) \<subseteq> set cs \<union> set rep"
      by (rule 2)
    moreover have "sub_word pat rep prev_word (c # cs) = c # sub_word pat rep (is_word c) cs"
      using False by auto
    ultimately show ?thesis by auto
  qed
qed

subsection \<open>Cleaning twice\<close>

definition subs :: "string \<Rightarrow> string" where
  "subs s = sub_word ''no'' ''tidak'' False (sub_word ''yes'' ''ya'' False
     (sub_word ''y'' ''ya'' False (sub_word ''t'' ''tidak'' False
       (sub_word ''tdk'' ''tidak'' False s))))"

lemma clean_subs: "clean raw = strip (collapse_ws (subs (sub_nonalnum (lower (strip raw)))))"
  by (simp add: clean_def subs_def Let_def)

lemma wordstr_literals:
  "wordstr ''tdk''" "wordstr ''t''" "wordstr ''y''" "wordstr ''yes''" "wordstr ''no''"
  "wordstr ''tidak''" "wordstr ''ya''"
  by (simp_all add: wordstr_def is_word_def ascii_lowercase_def)

definition rep_word :: "string \<Rightarrow> string \<Rightarrow> string \<Rightarrow> string" where
  "rep_word pat rep w = (if w = pat then rep else w)"

definition word_rules :: "string \<Rightarrow> string" where
  "word_rules w = rep_word ''no'' ''tidak'' (rep_word ''yes'' ''ya'' (rep_word ''y'' ''ya''
     (rep_word ''t'' ''tidak'' (rep_word ''tdk'' ''tidak'' w))))"

lemma tokens_sub_word_rep:
  "wordstr pat \<Longrightarrow> wordstr rep \<Longrightarrow>
     tokens (sub_word pat rep False s) = map (rep_word pat rep) (tokens s)"
  using tokens_sub_word [of pat rep s] by (simp add: rep_word_def [abs_def])

lemma tokens_subs: "tokens (subs s) = map word_rules (tokens s)"
  unfolding subs_def
  by (simp add: tokens_sub_word_rep wordstr_literals word_rules_def [abs_def] comp_def)

lemma word_rules_not_pattern:
  "word_rules v \<noteq> ''tdk'' \<and> word_rules v \<noteq> ''t'' \<and> word_rules v \<noteq> ''y''
   \<and> word_rules v \<noteq> ''yes'' \<and> word_rules v \<noteq> ''no''"
  by (simp add: word_rules_def rep_word_def)

lemma tokens_subs_not_pattern:
  assumes "w \<in> set (tokens (subs s))"
  shows "w \<noteq> ''tdk'' \<and> w \<noteq> ''t'' \<and> w \<noteq> ''y'' \<and> w \<noteq> ''yes'' \<and> w \<noteq> ''no''"
proof -
  from assms obtain v where "w = word_rules v"
    unfolding tokens_subs by auto
  then show ?thesis
    using word_rules_not_pattern [of v] by simp
qed

lemma subs_fixed:
  assumes "\<forall>w \<in> set (tokens s).
     w \<noteq> ''tdk'' \<and> w \<noteq> ''t'' \<and> w \<noteq> ''y'' \<and> w \<noteq> ''yes'' \<and> w \<noteq> ''no''"
  shows "subs s = s"
proof -
  from assms have n: "''tdk'' \<notin> set (tokens s)" "''t'' \<notin> set (tokens s)"
    "''y'' \<notin> set (tokens s)" "''yes'' \<notin> set (tokens s)" "''no'' \<notin> set (tokens s)"
    by blast+
  have "sub_word ''tdk'' ''tidak'' False s = s" "sub_word ''t'' ''tidak'' False s = s"
    "sub_word ''y'' ''ya'' False s = s" "sub_word ''yes'' ''ya'' False s = s"
    "sub_word ''no'' ''tidak'' False s = s"
    by (rule sub_word_fixed, rule wordstr_literals, rule n)+
  then show ?thesis
    unfolding subs_def by (simp only:)
qed

lemma set_subs: "set (subs s) \<subseteq> set s \<union> set ''tidakya''"
proof -
  have step: "set (sub_word pat rep False t) \<subseteq> A \<union> set ''tidakya''"
    if "set t \<subseteq> A \<union> set ''tidakya''" "set rep \<subseteq> set ''tidakya''" for pat rep t A
    using set_sub_word [of pat rep False t] that by blast
  have t: "set ''tidak'' \<subseteq> set ''tidakya''" and y: "set ''ya'' \<subseteq> set ''tidakya''"
    by simp_all
  have "set s \<subseteq> set s \<union> set ''tidakya''" by blast
  then show ?thesis
    unfolding subs_def by (intro step t y)
qed

lemma lowalnum_literals: "\<forall>c \<in> set ''tidakya''. is_lowalnum c"
  by (simp add: is_lowalnum_def ascii_lowercase_def)

lemma clean_chars: "\<forall>c \<in> set (clean raw). is_lowalnum c \<or> c = CHR '' ''"
proof
  fix c assume "c \<in> set (clean raw)"
  let ?x = "sub_nonalnum (lower (strip raw))"
  from \<open>c \<in> set (clean raw)\<close> have "c \<in> set (collapse_ws (subs ?x))"
    unfolding clean_subs using set_strip by blast
  then have "(c \<in> set (subs ?x) \<and> \<not> is_space c) \<or> c = CHR '' ''"
    using set_collapse_ws [of "subs ?x"] by blast
  then show "is_lowalnum c \<or> c = CHR '' ''"
  proof
    assume c: "c \<in> set (subs ?x) \<and> \<not> is_space c"
    then have "c \<in> set ?x \<or> c \<in> set ''tidakya''"
      using set_subs [of ?x] by blast
    then show ?thesis
      using c set_sub_nonalnum [of "lower (strip raw)"] lowalnum_literals by blast
  qed simp
qed

lemma clean_tokens:
  assumes "w \<in> set (tokens (clean raw))"
  shows "w \<noteq> ''tdk'' \<and> w \<noteq> ''t'' \<and> w \<noteq> ''y'' \<and> w \<noteq> ''yes'' \<and> w \<noteq> ''no''"
  using assms tokens_subs_not_pattern
  unfolding clean_subs tokens_strip tokens_collapse by blast

lemma clean_idem: "clean (clean raw) = clean raw"
proof -
  let ?r = "clean raw"
  have r: "?r = strip (collapse_ws (subs (sub_nonalnum (lower (strip raw)))))"
    by (rule clean_subs)
  have 1: "strip ?r = ?r" unfolding r by (rule strip_idem)
  have 2: "lower ?r = ?r" by (rule lower_fixed) (rule clean_chars)
  have 3: "sub_nonalnum ?r = ?r" by (rule sub_nonalnum_fixed) (rule clean_chars)
  have 4: "subs ?r = ?r" by (rule subs_fixed) (use clean_tokens in blast)
  have 5: "collapse_ws ?r = ?r" unfolding r by (rule collapse_strip_collapse)
  have "clean ?r = strip (collapse_ws (subs (sub_nonalnum (lower (strip ?r)))))"
    by (rule clean_subs)
  also have "\<dots> = ?r" by (simp only: 1 2 3 4 5)
  finally show ?thesis .
qed

subsection \<open>Properties of \<^verbatim>\<open>normalize_value_for_compare\<close>\<close>

lemma normalize_canonical:
  "normalize_value_for_compare (Some ''tidak sesuai'') = ''tidak sesuai''"
  "normalize_value_for_compare (Some ''tidak terawat'') = ''tidak terawat''"
  "normalize_value_for_compare (Some ''sesuai'') = ''sesuai''"
  "normalize_value_for_compare (Some ''terawat'') = ''terawat''"
  "normalize_value_for_compare (Some '''') = ''''"
  by code_simp+

lemma normalize_unmapped:
  assumes "\<not> contains ''sesuai'' (clean raw)" "\<not> contains ''terawat'' (clean raw)"
  shows "normalize_value_for_compare (Some raw) = clean raw"
  using assms by (simp add: normalize_value_for_compare_def Let_def)

text \<open>
  C5. The three spellings of the specification all normalize to \<open>tidak sesuai\<close>, and so
  does a value that mentions both \<open>tidak sesuai\<close> and \<open>tidak terawat\<close>. In general the
  tests are tried in order and the first that holds decides: a cleaned value containing
  \<open>tidak\<close> and \<open>sesuai\<close> gives \<open>tidak sesuai\<close> whatever else it contains; failing that,
  one containing \<open>tidak\<close> and \<open>terawat\<close> gives \<open>tidak terawat\<close>; failing that, one
  containing \<open>sesuai\<close> gives \<open>sesuai\<close>; failing that, one containing \<open>terawat\<close> gives
  \<open>terawat\<close>; otherwise the cleaned value itself is the result.
\<close>

theorem normalize_examples_and_priority:
  "normalize_value_for_compare (Some ''Tdk Sesuai'') = ''tidak sesuai''
   \<and> normalize_value_for_compare (Some ''TIDAK  SESUAI'') = ''tidak sesuai''
   \<and> normalize_value_for_compare (Some ''tidak_sesuai'') = ''tidak sesuai''
   \<and> normalize_value_for_compare (Some ''tidak sesuai dan tidak terawat'') = ''tidak sesuai''
   \<and> (\<forall>raw. contains ''tidak'' (clean raw) \<and> contains ''sesuai'' (clean raw) \<longrightarrow>
         normalize_value_for_compare (Some raw) = ''tidak sesuai'')
   \<and> (\<forall>raw. \<not> contains ''sesuai'' (clean raw) \<and>
         contains ''tidak'' (clean raw) \<and> contains ''terawat'' (clean raw) \<longrightarrow>
         normalize_value_for_compare (Some raw) = ''tidak terawat'')
   \<and> (\<forall>raw. \<not> contains ''tidak'' (clean raw) \<and> contains ''sesuai'' (clean raw) \<longrightarrow>
         normalize_value_for_compare (Some raw) = ''sesuai'')
   \<and> (\<forall>raw. \<not> contains ''tidak'' (clean raw) \<and> \<not> contains ''sesuai'' (clean raw) \<and>
         contains ''terawat'' (clean raw) \<longrightarrow>
         normalize_value_for_compare (Some raw) = ''terawat'')
   \<and> (\<forall>raw. \<not> contains ''sesuai'' (clean raw) \<and> \<not> contains ''terawat'' (clean raw) \<longrightarrow>
         normalize_value_for_compare (Some raw) = clean raw)"
proof (intro conjI allI impI)
  show "normalize_value_for_compare (Some ''Tdk Sesuai'') = ''tidak sesuai''"
    by code_simp
  show "normalize_value_for_compare (Some ''TIDAK  SESUAI'') = ''tidak sesuai''"
    by code_simp
  show "normalize_value_for_compare (Some ''tidak_sesuai'') = ''tidak sesuai''"
    by code_simp
  show "normalize_value_for_compare (Some ''tidak sesuai dan tidak terawat'') = ''tidak sesuai''"
    by code_simp
qed (simp_all add: normalize_value_for_compare_def Let_def)

theorem normalize_examples_and_priority_witness:
  "contains ''tidak'' (clean ''Tdk sesuai, tdk terawat'')
   \<and> contains ''sesuai'' (clean ''Tdk sesuai, tdk terawat'')
   \<and> contains ''terawat'' (clean ''Tdk sesuai, tdk terawat'')
   \<and> normalize_value_for_compare (Some ''Tdk sesuai, tdk terawat'') = ''tidak sesuai''"
proof -
  have c: "contains ''tidak'' (clean ''Tdk sesuai, tdk terawat'')"
    "contains ''sesuai'' (clean ''Tdk sesuai, tdk terawat'')"
    "contains ''terawat'' (clean ''Tdk sesuai, tdk terawat'')"
    by code_simp+
  with normalize_examples_and_priority
  have "normalize_value_for_compare (Some ''Tdk sesuai, tdk terawat'') = ''tidak sesuai''"
    by blast
  with c show ?thesis by blast
qed

text \<open>
  C10. Normalizing a normalized value changes nothing, for a missing value as for any
  text.
\<close>

theorem normalize_idempotent:
  "normalize_value_for_compare (Some (normalize_value_for_compare v))
     = normalize_value_for_compare v"
proof (cases v)
  case None
  have "normalize_value_for_compare None = []"
    by (simp add: normalize_value_for_compare_def)
  then show ?thesis
    unfolding None by (simp only: normalize_canonical(5))
next
  case (Some raw)
  have canon_cases: "normalize_value_for_compare (Some raw) \<in>
        {''tidak sesuai'', ''tidak terawat'', ''sesuai'', ''terawat''}"
    if "contains ''sesuai'' (clean raw) \<or> contains ''terawat'' (clean raw)"
    unfolding normalize_value_for_compare_def Let_def option.case
    using that by (cases "contains ''tidak'' (clean raw)";
        cases "contains ''sesuai'' (clean raw)"; cases "contains ''terawat'' (clean raw)")
      (simp_all only: if_True if_False simp_thms insert_iff)
  consider (canon) "normalize_value_for_compare (Some raw) \<in>
        {''tidak sesuai'', ''tidak terawat'', ''sesuai'', ''terawat''}"
    | (unmapped) "\<not> contains ''sesuai'' (clean raw)" "\<not> contains ''terawat'' (clean raw)"
    using canon_cases by blast
  then show ?thesis
  proof cases
    case canon
    then show ?thesis
      unfolding Some using normalize_canonical by auto
  next
    case unmapped
    then have r: "normalize_value_for_compare (Some raw) = clean raw"
      by (rule normalize_unmapped)
    have "normalize_value_for_compare (Some (clean raw)) = clean (clean raw)"
      by (rule normalize_unmapped) (simp_all add: clean_idem unmapped)
    then show ?thesis
      unfolding Some r by (simp add: clean_idem)
  qed
qed


section \<open>Header Inspector: \<^verbatim>\<open>parse_date_from_colname\<close>\<close>

subsection \<open>Regular expressions, matched by backtracking\<close>

text \<open>
  The fragment of Python's \<^verbatim>\<open>re\<close> syntax that the four date patterns use. A character
  class is \<^verbatim>\<open>\d\<close>, \<^verbatim>\<open>\s\<close>, \<^verbatim>\<open>[A-Za-z]\<close>, \<^verbatim>\<open>[^\d]\<close> or an explicit set; \<open>Star\<close> and \<open>Rep\<close> are the
  greedy repetitions \<^verbatim>\<open>k*\<close> and \<^verbatim>\<open>k{lo,hi}\<close> of a class, \<open>Opt\<close> the greedy \<^verbatim>\<open>r?\<close>, and
  \<open>Group\<close> a named group.
\<close>

datatype cls = Digit | Space | Letter | NonDigit | OneOf string

fun in_cls :: "cls \<Rightarrow> char \<Rightarrow> bool" where
  "in_cls Digit c = (c \<in> set digits)"
| "in_cls Space c = is_space c"
| "in_cls Letter c = (c \<in> set (ascii_uppercase @ ascii_lowercase))"
| "in_cls NonDigit c = (c \<notin> set digits)"
| "in_cls (OneOf s) c = (c \<in> set s)"

datatype regex =
    Lit string
  | Cls cls
  | Seq regex regex
  | Alt regex regex
  | Opt regex
  | Star cls
  | Rep cls nat nat
  | Group string regex

type_synonym groups = "(string \<times> string) list"

text \<open>
  \<open>run r (g, s)\<close> lists every way in which \<open>r\<close> matches at the start of \<open>s\<close>, in the order
  in which a backtracking matcher tries them: the left alternative before the right
  one, the longer repetition before the shorter one. Each entry holds the groups
  captured so far and the rest of the input.
\<close>

fun run :: "regex \<Rightarrow> groups \<times> string \<Rightarrow> (groups \<times> string) list" where
  "run (Lit p) (g, s) = (if prefix p s then [(g, drop (length p) s)] else [])"
| "run (Cls k) (g, s) =
     (case s of [] \<Rightarrow> [] | c # cs \<Rightarrow> if in_cls k c then [(g, cs)] else [])"
| "run (Seq a b) st = concat (map (run b) (run a st))"
| "run (Alt a b) st = run a st @ run b st"
| "run (Opt a) st = run a st @ [st]"
| "run (Star k) (g, s) =
     map (\<lambda>n. (g, drop n s)) (rev [0..<Suc (length (takeWhile (in_cls k) s))])"
| "run (Rep k lo hi) (g, s) =
     map (\<lambda>n. (g, drop n s)) (rev [lo..<Suc (min hi (length (takeWhile (in_cls k) s)))])"
| "run (Group name a) (g, s) =
     map (\<lambda>(g', rest). ((name, take (length s - length rest) s) # g', rest)) (run a (g, s))"

text \<open>
  \<^verbatim>\<open>re.search\<close>: the leftmost position at which the pattern matches, and there the first
  match in backtracking order. The result is the captured groups.
\<close>

fun search :: "regex \<Rightarrow> string \<Rightarrow> groups option" where
  "search r [] = (case run r ([], []) of [] \<Rightarrow> None | (g, _) # _ \<Rightarrow> Some g)"
| "search r (c # cs) =
     (case run r ([], c # cs) of [] \<Rightarrow> search r cs | (g, _) # _ \<Rightarrow> Some g)"

definition match_group :: "groups \<Rightarrow> string \<Rightarrow> string" where
  "match_group g name = (case map_of g name of Some t \<Rightarrow> t | None \<Rightarrow> [])"

subsection \<open>The four patterns\<close>

definition year_rx :: regex where
  "year_rx = Seq (Lit ''20'') (Rep Digit 2 2)"

definition month_rx :: regex where
  "month_rx = Alt (Seq (Opt (Lit ''0'')) (Cls (OneOf ''123456789'')))
                  (Seq (Lit ''1'') (Cls (OneOf ''012'')))"

definition sep_rx :: regex where
  "sep_rx = Seq (Star Space) (Seq (Opt (Cls (OneOf ''-_/''))) (Star Space))"

text \<open>\<^verbatim>\<open>(?P<y>20\d{2})\s*[-_/]?\s*(?P<m>0?[1-9]|1[0-2])\<close>\<close>

definition pattern_ym :: regex where
  "pattern_ym = Seq (Group ''y'' year_rx) (Seq sep_rx (Group ''m'' month_rx))"

text \<open>\<^verbatim>\<open>(?P<m>0?[1-9]|1[0-2])\s*[-_/]?\s*(?P<y>20\d{2})\<close>\<close>

definition pattern_my :: regex where
  "pattern_my = Seq (Group ''m'' month_rx) (Seq sep_rx (Group ''y'' year_rx))"

text \<open>\<^verbatim>\<open>(20\d{2})(0[1-9]|1[0-2])\<close>, the groups numbered 1 and 2\<close>

definition pattern_yyyymm :: regex where
  "pattern_yyyymm =
     Seq (Group ''1'' year_rx)
         (Group ''2'' (Alt (Seq (Lit ''0'') (Cls (OneOf ''123456789'')))
                           (Seq (Lit ''1'') (Cls (OneOf ''012'')))))"

text \<open>\<^verbatim>\<open>(?P<mon>[A-Za-z]{3,9})[^\d]*(?P<y>20\d{2})\<close>\<close>

definition pattern_mon :: regex where
  "pattern_mon = Seq (Group ''mon'' (Rep Letter 3 9)) (Seq (Star NonDigit) (Group ''y'' year_rx))"

subsection \<open>Numbers, dates and month names\<close>

datatype exn = ValueError

text \<open>\<^verbatim>\<open>int(s)\<close> on a string of decimal digits; anything else raises.\<close>

definition digit_val :: "char \<Rightarrow> nat" where
  "digit_val c = length (takeWhile (\<lambda>d. d \<noteq> c) digits)"

definition py_int :: "string \<Rightarrow> exn + nat" where
  "py_int s = (if s \<noteq> [] \<and> list_all (\<lambda>c. c \<in> set digits) s
               then Inr (foldl (\<lambda>n c. 10 * n + digit_val c) 0 s) else Inl ValueError)"

text \<open>
  \<^verbatim>\<open>datetime(y, mm, 1)\<close>, kept as the pair (year, month); a year outside 1..9999 or a
  month outside 1..12 raises.
\<close>

definition datetime :: "nat \<Rightarrow> nat \<Rightarrow> exn + nat \<times> nat" where
  "datetime y mm = (if 1 \<le> y \<and> y \<le> 9999 \<and> 1 \<le> mm \<and> mm \<le> 12 then Inr (y, mm)
                    else Inl ValueError)"

text \<open>\<^verbatim>\<open>calendar.month_abbr\<close> and \<^verbatim>\<open>calendar.month_name\<close> (English names; index 0 is empty).\<close>

definition month_abbr :: "string list" where
  "month_abbr = ['''', ''Jan'', ''Feb'', ''Mar'', ''Apr'', ''May'', ''Jun'',
                 ''Jul'', ''Aug'', ''Sep'', ''Oct'', ''Nov'', ''Dec'']"

definition month_name :: "string list" where
  "month_name = ['''', ''January'', ''February'', ''March'', ''April'', ''May'', ''June'',
                 ''July'', ''August'', ''September'', ''October'', ''November'', ''December'']"

definition abbr_map :: "(string \<times> nat) list" where
  "abbr_map = zip (map lower month_abbr) [0..<length month_abbr]"

definition name_map :: "(string \<times> nat) list" where
  "name_map = zip (map lower month_name) [0..<length month_name]"

text \<open>The loop over a map's items that stops at the first non-empty key satisfying \<open>p\<close>.\<close>

definition first_key :: "(string \<Rightarrow> bool) \<Rightarrow> (string \<times> nat) list \<Rightarrow> nat option" where
  "first_key p m = map_option snd (find (\<lambda>(k, v). k \<noteq> [] \<and> p k) m)"

definition month_of_name :: "string \<Rightarrow> nat option" where
  "month_of_name monraw =
     (let mm = (if take 3 monraw \<in> set (map (\<lambda>(k, v). take 3 k) abbr_map)
                then first_key (\<lambda>k. prefix (take 3 monraw) k) abbr_map else None)
      in case mm of
           None \<Rightarrow> first_key (\<lambda>k. prefix monraw k) name_map
         | Some v \<Rightarrow> Some v)"

subsection \<open>The parser\<close>

text \<open>
  The result is \<open>Inr (Some (y, m))\<close> for \<^verbatim>\<open>datetime(y, m, 1)\<close>, \<open>Inr None\<close> for \<^verbatim>\<open>None\<close>, and
  \<open>Inl e\<close> for an exception that leaves the function. In the last branch the source
  catches every exception and goes on to return \<^verbatim>\<open>None\<close>.
\<close>

definition ym_date :: "string \<Rightarrow> string \<Rightarrow> exn + (nat \<times> nat) option" where
  "ym_date ytext mtext =
     (case py_int ytext of
        Inl e \<Rightarrow> Inl e
      | Inr y \<Rightarrow>
          (case py_int mtext of
             Inl e \<Rightarrow> Inl e
           | Inr mm \<Rightarrow> (case datetime y mm of Inl e \<Rightarrow> Inl e | Inr d \<Rightarrow> Inr (Some d))))"

definition mon_date :: "groups \<Rightarrow> (nat \<times> nat) option" where
  "mon_date g =
     (let monraw = lower (strip (match_group g ''mon''));
          mm = month_of_name monraw
      in case py_int (match_group g ''y'') of
           Inl e \<Rightarrow> None
         | Inr y \<Rightarrow>
             (case mm of
                None \<Rightarrow> None
              | Some v \<Rightarrow>
                  if v > 0 then (case datetime y v of Inl e \<Rightarrow> None | Inr d \<Rightarrow> Some d)
                  else None))"

definition parse_date_from_colname :: "string \<Rightarrow> exn + (nat \<times> nat) option" where
  "parse_date_from_colname colname =
     (let c = strip colname
      in case search pattern_ym c of
           Some g \<Rightarrow> ym_date (match_group g ''y'') (match_group g ''m'')
         | None \<Rightarrow>
        (case search pattern_my c of
           Some g \<Rightarrow> ym_date (match_group g ''y'') (match_group g ''m'')
         | None \<Rightarrow>
        (case search pattern_yyyymm c of
           Some g \<Rightarrow> ym_date (match_group g ''1'') (match_group g ''2'')
         | None \<Rightarrow>
        (case search pattern_mon c of
           Some g \<Rightarrow> Inr (mon_date g)
         | None \<Rightarrow> Inr None))))"

subsection \<open>What a pattern can consume\<close>

fun lang :: "regex \<Rightarrow> string set" where
  "lang (Lit p) = {p}"
| "lang (Cls k) = {[c] | c. in_cls k c}"
| "lang (Seq a b) = {u @ v | u v. u \<in> lang a \<and> v \<in> lang b}"
| "lang (Alt a b) = lang a \<union> lang b"
| "lang (Opt a) = insert [] (lang a)"
| "lang (Star k) = {u. \<forall>c \<in> set u. in_cls k c}"
| "lang (Rep k lo hi) = {u. (\<forall>c \<in> set u. in_cls k c) \<and> lo \<le> length u \<and> length u \<le> hi}"
| "lang (Group name a) = lang a"

fun groupfree :: "regex \<Rightarrow> bool" where
  "groupfree (Seq a b) = (groupfree a \<and> groupfree b)"
| "groupfree (Alt a b) = (groupfree a \<and> groupfree b)"
| "groupfree (Opt a) = groupfree a"
| "groupfree (Group name a) = False"
| "groupfree r = True"

lemma run_class_run:
  assumes "n \<le> length (takeWhile p s)"
  shows "\<forall>c \<in> set (take n s). p c"
proof -
  have "take n s = take n (takeWhile p s)"
    using assms by (metis append_eq_conv_conj takeWhile_dropWhile_id take_append
        diff_is_0_eq take_0 append_Nil2)
  then show ?thesis
    by (auto dest!: in_set_takeD set_takeWhileD)
qed

lemma run_sound:
  "(g', rest) \<in> set (run r (g, s)) \<Longrightarrow> \<exists>u. u \<in> lang r \<and> s = u @ rest"
proof (induction r arbitrary: g s g' rest)
  case (Lit p)
  then show ?case by (auto split: if_splits elim: prefixE)
next
  case (Cls k)
  then show ?case by (auto split: list.splits if_splits)
next
  case (Seq a b)
  from Seq.prems obtain g1 mid where 1: "(g1, mid) \<in> set (run a (g, s))"
    and 2: "(g', rest) \<in> set (run b (g1, mid))"
    by auto
  from Seq.IH(1) [OF 1] obtain u where u: "u \<in> lang a" "s = u @ mid" by blast
  from Seq.IH(2) [OF 2] obtain v where v: "v \<in> lang b" "mid = v @ rest" by blast
  from u v have "u @ v \<in> lang (Seq a b)" "s = (u @ v) @ rest" by auto
  then show ?case by blast
next
  case (Alt a b)
  then show ?case by fastforce
next
  case (Opt a)
  then show ?case by fastforce
next
  case (Star k)
  then have "(g', rest) \<in> (\<lambda>n. (g, drop n s)) ` {0..<Suc (length (takeWhile (in_cls k) s))}"
    by (simp only: run.simps set_map set_rev set_upt)
  then obtain n where "n \<in> {0..<Suc (length (takeWhile (in_cls k) s))}"
    "(g', rest) = (g, drop n s)"
    by (rule imageE)
  then have n: "n \<le> length (takeWhile (in_cls k) s)" "rest = drop n s"
    by simp_all
  then have "take n s \<in> lang (Star k)" using run_class_run [of n "in_cls k" s] by simp
  moreover have "s = take n s @ rest" using n by simp
  ultimately show ?case by blast
next
  case (Rep k lo hi)
  then have "(g', rest) \<in> (\<lambda>n. (g, drop n s)) `
      {lo..<Suc (min hi (length (takeWhile (in_cls k) s)))}"
    by (simp only: run.simps set_map set_rev set_upt)
  then obtain n where "n \<in> {lo..<Suc (min hi (length (takeWhile (in_cls k) s)))}"
    "(g', rest) = (g, drop n s)"
    by (rule imageE)
  then have n: "n \<le> length (takeWhile (in_cls k) s)" "rest = drop n s"
    "lo \<le> n" "n \<le> hi"
    by auto
  have "n \<le> length s" using n(1) length_takeWhile_le [of "in_cls k" s] by linarith
  then have "take n s \<in> lang (Rep k lo hi)"
    using run_class_run [of n "in_cls k" s] n by simp
  moreover have "s = take n s @ rest" using n by simp
  ultimately show ?case by blast
next
  case (Group name a)
  then show ?case by fastforce
qed

lemma run_groupfree:
  "groupfree r \<Longrightarrow> (g', rest) \<in> set (run r (g, s)) \<Longrightarrow> g' = g"
proof (induction r arbitrary: g s g' rest)
  case (Seq a b)
  from Seq.prems obtain g1 mid where 1: "(g1, mid) \<in> set (run a (g, s))"
    and 2: "(g', rest) \<in> set (run b (g1, mid))"
    by auto
  with Seq show ?case by (metis groupfree.simps(1))
qed (auto split: if_splits list.splits)

lemma run_group:
  assumes "groupfree a" "(g', rest) \<in> set (run (Group name a) (g, s))"
  shows "\<exists>u. u \<in> lang a \<and> s = u @ rest \<and> g' = (name, u) # g"
proof -
  from assms(2) obtain g1 where 1: "(g1, rest) \<in> set (run a (g, s))"
    and g': "g' = (name, take (length s - length rest) s) # g1"
    by auto
  from run_groupfree [OF assms(1) 1] have "g1 = g" .
  moreover from run_sound [OF 1] obtain u where "u \<in> lang a" "s = u @ rest" by blast
  ultimately show ?thesis using g' by auto
qed

lemma search_run:
  "search r s = Some g \<Longrightarrow> \<exists>t rest. (g, rest) \<in> set (run r ([], t))"
proof (induction s)
  case Nil
  then show ?case by (auto split: list.splits) (metis list.set_intros(1))
next
  case (Cons c cs)
  show ?case
  proof (cases "run r ([], c # cs)")
    case Nil
    with Cons show ?thesis by simp
  next
    case (Cons a as)
    with Cons.prems have "fst a = g" by (auto split: prod.splits)
    then have "(g, snd a) \<in> set (run r ([], c # cs))" using Cons by (cases a) simp
    then show ?thesis by blast
  qed
qed

subsection \<open>The captured year and month\<close>

text \<open>The texts that the month group of a pattern can hold.\<close>

definition month_texts :: "string list" where
  "month_texts = map (\<lambda>c. [] @ [c]) ''123456789'' @ map (\<lambda>c. ''0'' @ [c]) ''123456789''
                 @ map (\<lambda>c. ''1'' @ [c]) ''012''"

definition year_text :: "string \<Rightarrow> bool" where
  "year_text u = (\<exists>d1 d2. u = [CHR ''2'', CHR ''0'', d1, d2] \<and> d1 \<in> set digits \<and> d2 \<in> set digits)"

lemma lang_year: "u \<in> lang year_rx \<Longrightarrow> year_text u"
proof -
  assume "u \<in> lang year_rx"
  then obtain v where v: "u = ''20'' @ v" "\<forall>c \<in> set v. c \<in> set digits" "length v = 2"
    by (auto simp: year_rx_def)
  from v(3) obtain d1 d2 where "v = [d1, d2]"
    by (auto simp: numeral_2_eq_2 length_Suc_conv)
  with v show ?thesis by (simp add: year_text_def)
qed

lemma lang_month: "u \<in> lang month_rx \<Longrightarrow> u \<in> set month_texts"
proof -
  assume "u \<in> lang month_rx"
  then have "(\<exists>c. u = [] @ [c] \<and> c \<in> set ''123456789'')
      \<or> (\<exists>c. u = ''0'' @ [c] \<and> c \<in> set ''123456789'')
      \<or> (\<exists>c. u = ''1'' @ [c] \<and> c \<in> set ''012'')"
    unfolding month_rx_def lang.simps in_cls.simps by blast
  then show ?thesis
    unfolding month_texts_def set_append set_map by blast
qed

lemma lang_month2:
  "u \<in> lang (Alt (Seq (Lit ''0'') (Cls (OneOf ''123456789'')))
                (Seq (Lit ''1'') (Cls (OneOf ''012'')))) \<Longrightarrow> u \<in> set month_texts"
proof -
  assume "u \<in> lang (Alt (Seq (Lit ''0'') (Cls (OneOf ''123456789'')))
                (Seq (Lit ''1'') (Cls (OneOf ''012''))))"
  then have "(\<exists>c. u = ''0'' @ [c] \<and> c \<in> set ''123456789'')
      \<or> (\<exists>c. u = ''1'' @ [c] \<and> c \<in> set ''012'')"
    unfolding lang.simps in_cls.simps by blast
  then show ?thesis
    unfolding month_texts_def set_append set_map by blast
qed

lemma digit_val_less: "d \<in> set digits \<Longrightarrow> digit_val d < 10"
  by (auto simp: digit_val_def digits_def)

lemma py_int_year:
  assumes "year_text u"
  shows "\<exists>y. py_int u = Inr y \<and> 2000 \<le> y \<and> y \<le> 2099"
proof -
  from assms obtain d1 d2 where u: "u = [CHR ''2'', CHR ''0'', d1, d2]"
    and d: "d1 \<in> set digits" "d2 \<in> set digits"
    by (auto simp: year_text_def)
  have two: "digit_val CHR ''2'' = 2" "digit_val CHR ''0'' = 0"
    by (simp_all add: digit_val_def digits_def)
  have "CHR ''2'' \<in> set digits" "CHR ''0'' \<in> set digits" by (simp_all add: digits_def)
  with d have "py_int u = Inr (2000 + 10 * digit_val d1 + digit_val d2)"
    unfolding u py_int_def by (simp add: two)
  moreover have "digit_val d1 < 10" "digit_val d2 < 10"
    using d by (simp_all add: digit_val_less)
  ultimately show ?thesis by simp
qed

lemma py_int_month_texts:
  "list_all (\<lambda>u. case py_int u of Inl e \<Rightarrow> False | Inr m \<Rightarrow> 1 \<le> m \<and> m \<le> 12) month_texts"
  by code_simp

lemma py_int_month:
  assumes "u \<in> set month_texts"
  shows "\<exists>m. py_int u = Inr m \<and> 1 \<le> m \<and> m \<le> 12"
proof -
  from py_int_month_texts assms
  have "case py_int u of Inl e \<Rightarrow> False | Inr m \<Rightarrow> 1 \<le> m \<and> m \<le> 12"
    unfolding list_all_iff by blast
  then show ?thesis by (cases "py_int u") simp_all
qed

lemma ym_date_ok:
  assumes "year_text ty" "tm \<in> set month_texts"
  shows "\<exists>y m. ym_date ty tm = Inr (Some (y, m)) \<and> 2000 \<le> y \<and> y \<le> 2099 \<and> 1 \<le> m \<and> m \<le> 12"
proof -
  from py_int_year [OF assms(1)] obtain y where y: "py_int ty = Inr y" "2000 \<le> y" "y \<le> 2099"
    by blast
  from py_int_month [OF assms(2)] obtain m where m: "py_int tm = Inr m" "1 \<le> m" "m \<le> 12"
    by blast
  from y m have "ym_date ty tm = Inr (Some (y, m))"
    by (simp add: ym_date_def datetime_def)
  with y m show ?thesis by blast
qed

lemma run_Seq:
  "(g', rest) \<in> set (run (Seq a b) st) \<longleftrightarrow>
     (\<exists>g1 mid. (g1, mid) \<in> set (run a st) \<and> (g', rest) \<in> set (run b (g1, mid)))"
  by auto

lemma groupfree_parts: "groupfree year_rx" "groupfree month_rx" "groupfree sep_rx"
  by (simp_all add: year_rx_def month_rx_def sep_rx_def)

lemma match_group_simps:
  "match_group ((n, u) # g) n = u" "n \<noteq> k \<Longrightarrow> match_group ((k, u) # g) n = match_group g n"
  by (simp_all add: match_group_def)

lemma pattern_ym_groups:
  assumes "search pattern_ym c = Some g"
  shows "year_text (match_group g ''y'') \<and> match_group g ''m'' \<in> set month_texts"
proof -
  from search_run [OF assms] obtain t rest where "(g, rest) \<in> set (run pattern_ym ([], t))"
    by blast
  then obtain g1 s1 g2 s2 where
    1: "(g1, s1) \<in> set (run (Group ''y'' year_rx) ([], t))" and
    2: "(g2, s2) \<in> set (run sep_rx (g1, s1))" and
    3: "(g, rest) \<in> set (run (Group ''m'' month_rx) (g2, s2))"
    unfolding pattern_ym_def run_Seq by blast
  from run_group [OF groupfree_parts(1) 1] obtain u where u: "u \<in> lang year_rx" "g1 = [(''y'', u)]"
    by blast
  from run_groupfree [OF groupfree_parts(3) 2] have "g2 = g1" .
  with run_group [OF groupfree_parts(2) 3] obtain v where
    v: "v \<in> lang month_rx" "g = (''m'', v) # g1"
    by blast
  from u v have "match_group g ''y'' = u" "match_group g ''m'' = v"
    by (simp_all add: match_group_def)
  with u v show ?thesis by (simp add: lang_year lang_month)
qed

lemma pattern_my_groups:
  assumes "search pattern_my c = Some g"
  shows "year_text (match_group g ''y'') \<and> match_group g ''m'' \<in> set month_texts"
proof -
  from search_run [OF assms] obtain t rest where "(g, rest) \<in> set (run pattern_my ([], t))"
    by blast
  then obtain g1 s1 g2 s2 where
    1: "(g1, s1) \<in> set (run (Group ''m'' month_rx) ([], t))" and
    2: "(g2, s2) \<in> set (run sep_rx (g1, s1))" and
    3: "(g, rest) \<in> set (run (Group ''y'' year_rx) (g2, s2))"
    unfolding pattern_my_def run_Seq by blast
  from run_group [OF groupfree_parts(2) 1] obtain v where v: "v \<in> lang month_rx" "g1 = [(''m'', v)]"
    by blast
  from run_groupfree [OF groupfree_parts(3) 2] have "g2 = g1" .
  with run_group [OF groupfree_parts(1) 3] obtain u where
    u: "u \<in> lang year_rx" "g = (''y'', u) # g1"
    by blast
  from u v have "match_group g ''y'' = u" "match_group g ''m'' = v"
    by (simp_all add: match_group_def)
  with u v show ?thesis by (simp add: lang_year lang_month)
qed

lemma pattern_yyyymm_groups:
  assumes "search pattern_yyyymm c = Some g"
  shows "year_text (match_group g ''1'') \<and> match_group g ''2'' \<in> set month_texts"
proof -
  let ?m = "Alt (Seq (Lit ''0'') (Cls (OneOf ''123456789''))) (Seq (Lit ''1'') (Cls (OneOf ''012'')))"
  from search_run [OF assms] obtain t rest where "(g, rest) \<in> set (run pattern_yyyymm ([], t))"
    by blast
  then obtain g1 s1 where
    1: "(g1, s1) \<in> set (run (Group ''1'' year_rx) ([], t))" and
    2: "(g, rest) \<in> set (run (Group ''2'' ?m) (g1, s1))"
    unfolding pattern_yyyymm_def run_Seq by blast
  from run_group [OF groupfree_parts(1) 1] obtain u where u: "u \<in> lang year_rx" "g1 = [(''1'', u)]"
    by blast
  have "groupfree ?m" by simp
  from run_group [OF this 2] obtain v where v: "v \<in> lang ?m" "g = (''2'', v) # g1"
    by blast
  from u v have "match_group g ''1'' = u" "match_group g ''2'' = v"
    by (simp_all add: match_group_def)
  with u v show ?thesis using lang_month2 [of v] by (simp add: lang_year)
qed

lemma pattern_mon_groups:
  assumes "search pattern_mon c = Some g"
  shows "year_text (match_group g ''y'')"
proof -
  from search_run [OF assms] obtain t rest where "(g, rest) \<in> set (run pattern_mon ([], t))"
    by blast
  then obtain g1 s1 g2 s2 where
    1: "(g1, s1) \<in> set (run (Group ''mon'' (Rep Letter 3 9)) ([], t))" and
    2: "(g2, s2) \<in> set (run (Star NonDigit) (g1, s1))" and
    3: "(g, rest) \<in> set (run (Group ''y'' year_rx) (g2, s2))"
    unfolding pattern_mon_def run_Seq by blast
  from run_group [OF groupfree_parts(1) 3] obtain u where
    u: "u \<in> lang year_rx" "g = (''y'', u) # g2"
    by blast
  then have "match_group g ''y'' = u" by (simp add: match_group_def)
  with u show ?thesis by (simp add: lang_year)
qed

lemma first_key_range:
  assumes "first_key p (zip ks [0..<n]) = Some v"
  shows "v < n"
proof -
  from assms obtain kv where kv: "find (\<lambda>(k, v). k \<noteq> [] \<and> p k) (zip ks [0..<n]) = Some kv"
    "snd kv = v"
    by (auto simp: first_key_def)
  from kv(1) have "kv \<in> set (zip ks [0..<n])"
    unfolding find_Some_iff by (metis nth_mem)
  then have "(fst kv, snd kv) \<in> set (zip ks [0..<n])" by simp
  then have "snd kv \<in> set [0..<n]" by (rule set_zip_rightD)
  with kv(2) show ?thesis by simp
qed

lemma mon_date_range:
  assumes "year_text (match_group g ''y'')" "mon_date g = Some (y, m)"
  shows "2000 \<le> y \<and> y \<le> 2099 \<and> 1 \<le> m \<and> m \<le> 12"
proof -
  from py_int_year [OF assms(1)] obtain y' where
    y': "py_int (match_group g ''y'') = Inr y'" "2000 \<le> y'" "y' \<le> 2099"
    by blast
  with assms(2) show ?thesis
    by (auto simp: mon_date_def Let_def datetime_def split: option.splits if_splits sum.splits)
qed

lemma parse_date_never_raises_in_range:
  "\<exists>r. parse_date_from_colname c = Inr r \<and>
     (\<forall>y m. r = Some (y, m) \<longrightarrow> 2000 \<le> y \<and> y \<le> 2099 \<and> 1 \<le> m \<and> m \<le> 12)"
proof (cases "search pattern_ym (strip c)")
  case (Some g)
  from ym_date_ok pattern_ym_groups [OF Some] Some show ?thesis
    by (fastforce simp: parse_date_from_colname_def Let_def)
next
  case n1: None
  show ?thesis
  proof (cases "search pattern_my (strip c)")
    case (Some g)
    from ym_date_ok pattern_my_groups [OF Some] Some n1 show ?thesis
      by (fastforce simp: parse_date_from_colname_def Let_def)
  next
    case n2: None
    show ?thesis
    proof (cases "search pattern_yyyymm (strip c)")
      case (Some g)
      from ym_date_ok pattern_yyyymm_groups [OF Some] Some n1 n2 show ?thesis
        by (fastforce simp: parse_date_from_colname_def Let_def)
    next
      case n3: None
      show ?thesis
      proof (cases "search pattern_mon (strip c)")
        case (Some g)
        from mon_date_range [OF pattern_mon_groups [OF Some]] Some n1 n2 n3 show ?thesis
          by (simp add: parse_date_from_colname_def Let_def)
      next
        case None
        with n1 n2 n3 show ?thesis
          by (simp add: parse_date_from_colname_def Let_def)
      qed
    qed
  qed
qed

subsection \<open>The headers of the specification\<close>

text \<open>
  C1. On the three headers of the specification the parser does not return
  (2023, 11) throughout: in \<open>REK_2023-11\<close> the year-first pattern matches with the month
  group \<open>1\<close>, because the alternative \<^verbatim>\<open>0?[1-9]\<close> is tried before \<^verbatim>\<open>1[0-2]\<close> and nothing
  after the group forces backtracking; in \<open>REK_Nov_2023\<close> the month-name pattern matches
  at the start of the header with the name group \<open>REK\<close>, which is no month, and the
  result is \<^verbatim>\<open>None\<close>. Only \<open>REK112023\<close> gives (2023, 11).
\<close>

theorem parse_date_spec_headers:
  "parse_date_from_colname ''REK_2023-11'' = Inr (Some (2023, 1))
   \<and> parse_date_from_colname ''REK112023'' = Inr (Some (2023, 11))
   \<and> parse_date_from_colname ''REK_Nov_2023'' = Inr None"
  by code_simp


section \<open>Period Selector: the order of the reading columns\<close>

text \<open>
  The reading columns are those whose uppercased name contains \<open>REK\<close>. Each is given
  its parsed date; an exception in the parser would end the loop.
\<close>

definition rek_columns :: "string list \<Rightarrow> string list" where
  "rek_columns columns = filter (\<lambda>col. contains ''REK'' (upper col)) columns"

fun col_dates_of :: "string list \<Rightarrow> exn + (string \<times> (nat \<times> nat) option) list" where
  "col_dates_of [] = Inr []"
| "col_dates_of (col # cols) =
     (case parse_date_from_colname col of
        Inl e \<Rightarrow> Inl e
      | Inr dt \<Rightarrow>
          (case col_dates_of cols of
             Inl e \<Rightarrow> Inl e
           | Inr rest \<Rightarrow> Inr ((col, dt) # rest)))"

text \<open>
  \<^verbatim>\<open>sorted(parsed, key=lambda x: x[1])\<close> is a stable sort by the date; dates compare as
  (year, month) pairs, lexicographically.
\<close>

definition parsed_of :: "(string \<times> (nat \<times> nat) option) list \<Rightarrow> (string \<times> nat \<times> nat) list" where
  "parsed_of col_dates = [(c, d). (c, Some d) \<leftarrow> col_dates]"

definition unparsed_of :: "(string \<times> (nat \<times> nat) option) list \<Rightarrow> string list" where
  "unparsed_of col_dates = [c. (c, None) \<leftarrow> col_dates]"

definition build_sorted_cols :: "string list \<Rightarrow> exn + string list" where
  "build_sorted_cols all_columns =
     (case col_dates_of all_columns of
        Inl e \<Rightarrow> Inl e
      | Inr col_dates \<Rightarrow>
          (let parsed = parsed_of col_dates;
               unparsed = unparsed_of col_dates
           in if parsed \<noteq> []
              then Inr (map fst (sort_key snd parsed) @ unparsed)
              else Inr all_columns))"


definition date_of :: "string \<Rightarrow> (nat \<times> nat) option" where
  "date_of col = (case parse_date_from_colname col of Inl e \<Rightarrow> None | Inr dt \<Rightarrow> dt)"

lemma parse_date_of: "parse_date_from_colname col = Inr (date_of col)"
  using parse_date_never_raises_in_range [of col] by (auto simp: date_of_def)

lemma col_dates_of_map: "col_dates_of cols = Inr (map (\<lambda>c. (c, date_of c)) cols)"
  by (induction cols) (simp_all add: parse_date_of)

lemma parsed_of_map:
  "parsed_of (map (\<lambda>c. (c, date_of c)) cols)
     = map (\<lambda>c. (c, the (date_of c))) (filter (\<lambda>c. date_of c \<noteq> None) cols)"
  by (induction cols) (auto simp: parsed_of_def split: option.splits)

lemma unparsed_of_map:
  "unparsed_of (map (\<lambda>c. (c, date_of c)) cols) = filter (\<lambda>c. date_of c = None) cols"
  by (induction cols) (auto simp: unparsed_of_def split: option.splits)

lemma build_sorted_cols_eq:
  "build_sorted_cols cols =
     Inr (map fst (sort_key snd (map (\<lambda>c. (c, the (date_of c))) (filter (\<lambda>c. date_of c \<noteq> None) cols)))
          @ filter (\<lambda>c. date_of c = None) cols)"
proof -
  let ?parsed = "map (\<lambda>c. (c, the (date_of c))) (filter (\<lambda>c. date_of c \<noteq> None) cols)"
  let ?unparsed = "filter (\<lambda>c. date_of c = None) cols"
  have b: "build_sorted_cols cols =
      (if ?parsed \<noteq> [] then Inr (map fst (sort_key snd ?parsed) @ ?unparsed) else Inr cols)"
    by (simp only: build_sorted_cols_def col_dates_of_map sum.case Let_def
        parsed_of_map unparsed_of_map)
  show ?thesis
  proof (cases "?parsed = []")
    case True
    then have "filter (\<lambda>c. date_of c \<noteq> None) cols = []" by simp
    then have "\<forall>c \<in> set cols. date_of c = None"
      by (simp only: filter_empty_conv not_not)
    then have "?unparsed = cols"
      by (simp only: filter_id_conv)
    with True b show ?thesis by simp
  next
    case False
    with b show ?thesis by simp
  qed
qed

text \<open>
  C8. The parser raises for no column, and the ordered list is a list \<open>ps\<close> followed by
  the columns without a parsed date in their original order, where \<open>ps\<close> holds exactly
  the columns with a parsed date (each as often as it occurs) and is ascending by
  (year, month).
\<close>

theorem sorted_cols_parsed_then_unparsed:
  "\<exists>ps. build_sorted_cols cols =
          Inr (ps @ filter (\<lambda>c. parse_date_from_colname c = Inr None) cols)
        \<and> mset ps = mset (filter (\<lambda>c. parse_date_from_colname c \<noteq> Inr None) cols)
        \<and> sorted_wrt (\<lambda>a b. \<exists>ya ma yb mb.
              parse_date_from_colname a = Inr (Some (ya, ma)) \<and>
              parse_date_from_colname b = Inr (Some (yb, mb)) \<and>
              (ya < yb \<or> (ya = yb \<and> ma \<le> mb))) ps"
proof -
  define dated where "dated = filter (\<lambda>c. date_of c \<noteq> None) cols"
  define pairs where "pairs = sort_key snd (map (\<lambda>c. (c, the (date_of c))) dated)"
  define rel where "rel = (\<lambda>a b. \<exists>ya ma yb mb.
              parse_date_from_colname a = Inr (Some (ya, ma)) \<and>
              parse_date_from_colname b = Inr (Some (yb, mb)) \<and>
              (ya < yb \<or> (ya = yb \<and> ma \<le> mb)))"
  have none: "(parse_date_from_colname c = Inr None) = (date_of c = None)" for c
    unfolding parse_date_of by simp
  have f1: "filter (\<lambda>c. parse_date_from_colname c = Inr None) cols
      = filter (\<lambda>c. date_of c = None) cols"
    unfolding none ..
  have f2: "filter (\<lambda>c. parse_date_from_colname c \<noteq> Inr None) cols = dated"
    unfolding none dated_def ..
  have 1: "build_sorted_cols cols =
      Inr (map fst pairs @ filter (\<lambda>c. parse_date_from_colname c = Inr None) cols)"
    unfolding f1 pairs_def dated_def by (rule build_sorted_cols_eq)
  have "mset pairs = mset (map (\<lambda>c. (c, the (date_of c))) dated)"
    unfolding pairs_def by (rule mset_sort)
  then have "image_mset fst (mset pairs) = image_mset fst (mset (map (\<lambda>c. (c, the (date_of c))) dated))"
    by (rule arg_cong)
  then have "mset (map fst pairs) = mset (map fst (map (\<lambda>c. (c, the (date_of c))) dated))"
    by (simp only: mset_map)
  also have "map fst (map (\<lambda>c. (c, the (date_of c))) dated) = dated"
    by (simp add: comp_def)
  finally have 2: "mset (map fst pairs) = mset (filter (\<lambda>c. parse_date_from_colname c \<noteq> Inr None) cols)"
    unfolding f2 .
  have member: "parse_date_from_colname (fst p) = Inr (Some (snd p))" if "p \<in> set pairs" for p
  proof -
    from that have "p \<in> set (map (\<lambda>c. (c, the (date_of c))) dated)"
      unfolding pairs_def by (simp only: set_sort)
    then obtain c where c: "c \<in> set dated" "p = (c, the (date_of c))" by auto
    then have "date_of c \<noteq> None" unfolding dated_def by simp
    with c(2) show ?thesis unfolding parse_date_of by auto
  qed
  have "sorted (map snd pairs)" unfolding pairs_def by (rule sorted_sort_key)
  then have s: "sorted_wrt (\<lambda>p q. snd p \<le> snd q) pairs"
    by (simp only: sorted_wrt_map)
  have "sorted_wrt (\<lambda>p q. rel (fst p) (fst q)) pairs"
  proof (rule sorted_wrt_mono_rel [OF _ s])
    fix p q assume pq: "p \<in> set pairs" "q \<in> set pairs" "snd p \<le> snd q"
    obtain ya ma where a: "snd p = (ya, ma)" by (cases "snd p")
    obtain yb mb where b: "snd q = (yb, mb)" by (cases "snd q")
    from pq(3) have "ya < yb \<or> (ya = yb \<and> ma \<le> mb)"
      unfolding a b less_eq_prod_def by auto
    moreover have "parse_date_from_colname (fst p) = Inr (Some (ya, ma))"
      "parse_date_from_colname (fst q) = Inr (Some (yb, mb))"
      using member [OF pq(1)] member [OF pq(2)] a b by simp_all
    ultimately show "rel (fst p) (fst q)"
      unfolding rel_def by blast
  qed
  then have 3: "sorted_wrt rel (map fst pairs)"
    by (simp only: sorted_wrt_map)
  from 1 2 3 show ?thesis unfolding rel_def by blast
qed

theorem sorted_cols_parsed_then_unparsed_witness:
  "\<exists>ps. build_sorted_cols [''REK 03-2024'', ''REK lama'', ''REK 12-2023'', ''REK x'', ''REK 1 2024'']
          = Inr (ps @ [''REK lama'', ''REK x''])
        \<and> mset ps = mset [''REK 03-2024'', ''REK 12-2023'', ''REK 1 2024'']"
proof -
  let ?cols = "[''REK 03-2024'', ''REK lama'', ''REK 12-2023'', ''REK x'', ''REK 1 2024'']"
  have 1: "filter (\<lambda>c. parse_date_from_colname c = Inr None) ?cols = [''REK lama'', ''REK x'']"
    by code_simp
  have 2: "filter (\<lambda>c. parse_date_from_colname c \<noteq> Inr None) ?cols
      = [''REK 03-2024'', ''REK 12-2023'', ''REK 1 2024'']"
    by code_simp
  from sorted_cols_parsed_then_unparsed [of ?cols] show ?thesis
    unfolding 1 2 by blast
qed


section \<open>Python list slices\<close>

text \<open>
  Python's \<^verbatim>\<open>xs[i:]\<close> and \<^verbatim>\<open>xs[:i]\<close> for an integer \<open>i\<close>: a negative index counts
  from the end, and an index outside the list is clamped.
\<close>

definition slice_from :: "'a list \<Rightarrow> int \<Rightarrow> 'a list" where
  "slice_from xs i = (if i < 0 then drop (nat (int (length xs) + i)) xs else drop (nat i) xs)"

definition slice_to :: "'a list \<Rightarrow> int \<Rightarrow> 'a list" where
  "slice_to xs i = (if i < 0 then take (nat (int (length xs) + i)) xs else take (nat i) xs)"

section \<open>Period Selector: \<^verbatim>\<open>apply_preset\<close>\<close>

text \<open>
  \<^verbatim>\<open>apply_preset(n_months)\<close> reads the enclosing \<^verbatim>\<open>sorted_cols\<close> and stores the two periods
  in the session state; the model takes \<^verbatim>\<open>sorted_cols\<close> as an argument and returns the
  pair (Period 1, Period 2) that is stored.
\<close>

definition preset_window :: "'a list \<Rightarrow> int \<Rightarrow> 'a list" where
  "preset_window sorted_cols n_months =
     (if int (length sorted_cols) < n_months then sorted_cols
      else slice_from sorted_cols (- n_months))"

definition preset_split :: "'a list \<Rightarrow> int \<Rightarrow> int" where
  "preset_split window n_months =
     (let half = n_months div 2
      in if int (length window) \<le> half then int (length window) div 2 else half)"

definition apply_preset :: "'a list \<Rightarrow> int \<Rightarrow> 'a list \<times> 'a list" where
  "apply_preset sorted_cols n_months =
     (let window = preset_window sorted_cols n_months;
          split = preset_split window n_months
      in (slice_to window split, slice_from window split))"

text \<open>
  The preset rule as the specification words it: the split point is \<open>n // 2\<close> unless the
  window has fewer elements than that, in which case it is half the window's length.
\<close>

definition apply_preset_spec :: "'a list \<Rightarrow> int \<Rightarrow> 'a list \<times> 'a list" where
  "apply_preset_spec sorted_cols n_months =
     (let window = (if int (length sorted_cols) < n_months then sorted_cols
                    else drop (length sorted_cols - nat n_months) sorted_cols);
          split = (if int (length window) < n_months div 2 then length window div 2
                   else nat (n_months div 2))
      in (take split window, drop split window))"


subsection \<open>Properties of \<^verbatim>\<open>apply_preset\<close>\<close>

lemma slice_from_neg_last:
  "0 < n \<Longrightarrow> slice_from xs (- n) = drop (length xs - nat n) xs"
  by (simp add: slice_from_def nat_diff_distrib')

lemma preset_window_drop:
  "0 < n \<Longrightarrow> preset_window cols n = drop (length cols - nat n) cols"
  by (simp add: preset_window_def slice_from_neg_last)

lemma preset_split_nat:
  "0 < n \<Longrightarrow> preset_split w n =
     int (if length w \<le> nat n div 2 then length w div 2 else nat n div 2)"
  by (auto simp: preset_split_def Let_def zdiv_int nat_div_distrib le_nat_iff)

lemma apply_preset_take_drop:
  assumes "0 < n"
  shows "apply_preset cols n =
     (let window = drop (length cols - nat n) cols;
          split = (if length window \<le> nat n div 2 then length window div 2 else nat n div 2)
      in (take split window, drop split window))"
proof -
  have "preset_split (preset_window cols n) n \<ge> 0"
    using assms by (simp add: preset_split_nat)
  then show ?thesis
    using assms
    by (simp add: apply_preset_def Let_def slice_to_def slice_from_def
        preset_split_nat preset_window_drop del: length_drop)
qed

text \<open>
  C2, as the code has it. For each exposed preset \<open>n \<in> {3, 6, 12, 24}\<close> the window is
  the last \<open>n\<close> columns (all of them when fewer exist); the split point is \<open>n // 2\<close>
  unless the window has at most \<open>n // 2\<close> elements, in which case it is half the
  window's length; Period 1 is the window before the split point and Period 2 the rest.
  With \<open>n = 6\<close>, ten columns give periods of lengths 3 and 3, and fewer than six
  columns give the whole list split at \<open>len // 2\<close> when it has at most three columns
  and at 3 when it has four or five.
\<close>

theorem apply_preset_rule:
  "(n \<in> {3, 6, 12, 24} \<longrightarrow>
      apply_preset cols n =
        (let window = drop (length cols - nat n) cols;
             split = (if length window \<le> nat n div 2 then length window div 2
                      else nat n div 2)
         in (take split window, drop split window)))
   \<and> (length cols = 10 \<longrightarrow>
        length (fst (apply_preset cols 6)) = 3 \<and> length (snd (apply_preset cols 6)) = 3)
   \<and> (length cols < 6 \<longrightarrow>
        apply_preset cols 6 =
          (let split = (if length cols \<le> 3 then length cols div 2 else 3)
           in (take split cols, drop split cols)))"
proof (intro conjI impI)
  assume "n \<in> {3, 6, 12, 24}"
  then have "0 < n" by auto
  then show "apply_preset cols n =
        (let window = drop (length cols - nat n) cols;
             split = (if length window \<le> nat n div 2 then length window div 2
                      else nat n div 2)
         in (take split window, drop split window))"
    by (rule apply_preset_take_drop)
next
  assume "length cols = 10"
  then show "length (fst (apply_preset cols 6))= 3"
    by (simp add: apply_preset_take_drop Let_def)
next
  assume "length cols = 10"
  then show "length (snd (apply_preset cols 6)) = 3"
    by (simp add: apply_preset_take_drop Let_def)
next
  assume "length cols < 6"
  then show "apply_preset cols 6 =
          (let split = (if length cols \<le> 3 then length cols div 2 else 3)
           in (take split cols, drop split cols))"
    by (simp add: apply_preset_take_drop Let_def)
qed

theorem apply_preset_rule_witness:
  "apply_preset [''c1'', ''c2'', ''c3'', ''c4'', ''c5''] 6 =
     ([''c1'', ''c2'', ''c3''], [''c4'', ''c5''])"
  using apply_preset_rule [of 6 "[''c1'', ''c2'', ''c3'', ''c4'', ''c5'']"]
  by (simp add: Let_def)

text \<open>
  With three columns and \<open>n = 6\<close> the window has exactly \<open>n // 2\<close> elements: the code
  splits it at 1, the rule as worded splits it at 3 and leaves Period 2 empty. With five
  columns the code splits at 3, not at \<open>5 // 2 = 2\<close>.
\<close>

theorem apply_preset_counterexample:
  "apply_preset [''c1'', ''c2'', ''c3''] 6 = ([''c1''], [''c2'', ''c3''])
   \<and> apply_preset_spec [''c1'', ''c2'', ''c3''] 6 = ([''c1'', ''c2'', ''c3''], [])
   \<and> apply_preset [''c1'', ''c2'', ''c3'', ''c4'', ''c5''] 6 \<noteq>
       (take (5 div 2) [''c1'', ''c2'', ''c3'', ''c4'', ''c5''],
        drop (5 div 2) [''c1'', ''c2'', ''c3'', ''c4'', ''c5''])"
  by (simp add: apply_preset_def apply_preset_spec_def preset_window_def preset_split_def
      slice_from_def slice_to_def Let_def)


section \<open>Metric Calculator, Threshold Filter and Joiner\<close>

subsection \<open>Numeric cells\<close>

text \<open>
  A numeric cell of a table is a float or a missing value. It is modelled as a real
  number, one of the two infinities, or \<open>NaN\<close>, which also stands for \<^verbatim>\<open>pd.NA\<close>. Rounding,
  overflow and the sign of zero are not modelled; a finite number divided by zero gives
  the infinity with the sign of the dividend, and zero divided by zero gives \<open>NaN\<close>.
\<close>

datatype fval = NaN | PInf | NInf | Fin real

fun notna :: "fval \<Rightarrow> bool" where
  "notna NaN = False"
| "notna v = True"

fun is_neg :: "fval \<Rightarrow> bool" where
  "is_neg NInf = True"
| "is_neg (Fin x) = (x < 0)"
| "is_neg v = False"

fun fneg :: "fval \<Rightarrow> fval" where
  "fneg NaN = NaN"
| "fneg PInf = NInf"
| "fneg NInf = PInf"
| "fneg (Fin x) = Fin (- x)"

fun fadd :: "fval \<Rightarrow> fval \<Rightarrow> fval" where
  "fadd NaN b = NaN"
| "fadd a NaN = NaN"
| "fadd (Fin x) (Fin y) = Fin (x + y)"
| "fadd PInf NInf = NaN"
| "fadd NInf PInf = NaN"
| "fadd PInf b = PInf"
| "fadd a PInf = PInf"
| "fadd NInf b = NInf"
| "fadd a NInf = NInf"

definition fsub :: "fval \<Rightarrow> fval \<Rightarrow> fval" where
  "fsub a b = fadd a (fneg b)"

fun fmul :: "fval \<Rightarrow> fval \<Rightarrow> fval" where
  "fmul NaN b = NaN"
| "fmul a NaN = NaN"
| "fmul (Fin x) (Fin y) = Fin (x * y)"
| "fmul a b = (if a = Fin 0 \<or> b = Fin 0 then NaN
               else if is_neg a \<noteq> is_neg b then NInf else PInf)"

fun fdiv :: "fval \<Rightarrow> fval \<Rightarrow> fval" where
  "fdiv NaN b = NaN"
| "fdiv a NaN = NaN"
| "fdiv (Fin x) (Fin y) =
     (if y \<noteq> 0 then Fin (x / y)
      else if x = 0 then NaN else if x < 0 then NInf else PInf)"
| "fdiv (Fin x) b = Fin 0"
| "fdiv a (Fin y) = (if is_neg a \<noteq> (y < 0) then NInf else PInf)"
| "fdiv a b = NaN"

text \<open>Comparisons; every comparison with \<open>NaN\<close> is false.\<close>

fun fle :: "fval \<Rightarrow> fval \<Rightarrow> bool" where
  "fle NaN b = False"
| "fle a NaN = False"
| "fle (Fin x) (Fin y) = (x \<le> y)"
| "fle NInf b = True"
| "fle a PInf = True"
| "fle a b = False"

definition fge :: "fval \<Rightarrow> fval \<Rightarrow> bool" where
  "fge a b = fle b a"

text \<open>
  \<^verbatim>\<open>np.isclose(a, b, atol=tol)\<close> for a finite \<open>b\<close>: the relative tolerance keeps its default
  \<open>1e-05\<close>, so a finite \<open>a\<close> is close when \<open>|a - b| \<le> tol + 1e-05 * |b|\<close>; an infinite or
  missing \<open>a\<close> is not close.
\<close>

definition rtol :: real where
  "rtol = 1 / 100000"

fun isclose :: "fval \<Rightarrow> real \<Rightarrow> real \<Rightarrow> bool" where
  "isclose (Fin a) b atol = (\<bar>a - b\<bar> \<le> atol + rtol * \<bar>b\<bar>)"
| "isclose v b atol = False"

subsection \<open>Averages and percentage change\<close>

text \<open>
  A row of the consumption table, reduced to what the computation reads: the customer
  identifier and the cells of the Period 1 and Period 2 columns after
  \<^verbatim>\<open>pd.to_numeric(errors='coerce')\<close>.
\<close>

record reading_row =
  idpel :: string
  period1 :: "fval list"
  period2 :: "fval list"

record result_row =
  rid :: string
  rata2_periode1 :: fval
  rata2_periode2 :: fval
  selisih_rata2 :: fval

text \<open>\<^verbatim>\<open>mean(axis=1, skipna=True)\<close>: the mean of the cells that are not missing.\<close>

definition mean_skipna :: "fval list \<Rightarrow> fval" where
  "mean_skipna cells =
     (let xs = filter notna cells
      in if xs = [] then NaN else fdiv (foldl fadd (Fin 0) xs) (Fin (real (length xs))))"

text \<open>\<^verbatim>\<open>replace(0, pd.NA)\<close>\<close>

definition replace_zero :: "fval \<Rightarrow> fval" where
  "replace_zero v = (if v = Fin 0 then NaN else v)"

definition selisih :: "fval \<Rightarrow> fval \<Rightarrow> fval" where
  "selisih avg1 avg2 = fmul (fdiv (fsub avg1 avg2) (replace_zero avg1)) (Fin 100)"

definition compute_row :: "reading_row \<Rightarrow> result_row" where
  "compute_row r =
     (let avg1 = mean_skipna (period1 r); avg2 = mean_skipna (period2 r)
      in \<lparr>rid = idpel r, rata2_periode1 = avg1, rata2_periode2 = avg2,
          selisih_rata2 = selisih avg1 avg2\<rparr>)"

text \<open>\<^verbatim>\<open>df[df["Selisih_Rata2"].notna() & (df["Selisih_Rata2"] >= 0)]\<close>\<close>

definition drop_rows :: "result_row list \<Rightarrow> result_row list" where
  "drop_rows df = filter (\<lambda>r. notna (selisih_rata2 r) \<and> fge (selisih_rata2 r) (Fin 0)) df"

datatype operator = OpLe | OpGe | OpEq

definition threshold_filter :: "operator \<Rightarrow> real \<Rightarrow> real \<Rightarrow> result_row list \<Rightarrow> result_row list" where
  "threshold_filter op threshold tol df =
     (case op of
        OpLe \<Rightarrow> filter (\<lambda>r. fle (selisih_rata2 r) (Fin threshold)) df
      | OpGe \<Rightarrow> filter (\<lambda>r. fge (selisih_rata2 r) (Fin threshold)) df
      | OpEq \<Rightarrow> filter (\<lambda>r. isclose (selisih_rata2 r) threshold tol) df)"

definition penurunan :: "reading_row list \<Rightarrow> operator \<Rightarrow> real \<Rightarrow> real \<Rightarrow> result_row list" where
  "penurunan df_cons op threshold tol =
     threshold_filter op threshold tol (drop_rows (map compute_row df_cons))"

subsection \<open>The merged result\<close>

text \<open>
  In the mode with both analyses the filtered rows are joined with the filtered survey
  rows on the stripped identifier (an inner join: a row appears once for every survey
  row with its identifier); of the survey rows only the identifiers matter here. The
  optional identifier filter is the parameter \<open>id_keep\<close>. In the survey-only mode the
  result has no percentage column, which is the value \<open>None\<close>.
\<close>

datatype mode = PenurunanSaja | LbkbSaja | Gabungan

definition merge_inner :: "result_row list \<Rightarrow> string list \<Rightarrow> result_row list" where
  "merge_inner df_filtered lbkb_ids =
     (if df_filtered \<noteq> [] \<and> lbkb_ids \<noteq> []
      then concat (map (\<lambda>r. map (\<lambda>l. r\<lparr>rid := strip (rid r)\<rparr>)
                                 (filter (\<lambda>l. strip l = strip (rid r)) lbkb_ids)) df_filtered)
      else [])"

definition df_merged ::
  "mode \<Rightarrow> result_row list \<Rightarrow> string list \<Rightarrow> (string \<Rightarrow> bool) option \<Rightarrow> result_row list option" where
  "df_merged m df_filtered lbkb_ids id_keep =
     (case m of
        LbkbSaja \<Rightarrow> None
      | PenurunanSaja \<Rightarrow>
          Some (case id_keep of None \<Rightarrow> df_filtered
                | Some keep \<Rightarrow> filter (\<lambda>r. keep (rid r)) df_filtered)
      | Gabungan \<Rightarrow>
          Some (case id_keep of None \<Rightarrow> merge_inner df_filtered lbkb_ids
                | Some keep \<Rightarrow> filter (\<lambda>r. keep (rid r)) (merge_inner df_filtered lbkb_ids)))"

section \<open>Distribution Binner\<close>

text \<open>
  \<^verbatim>\<open>pd.cut(values, bins=bins, labels=labels, include_lowest=True)\<close> with the default
  \<^verbatim>\<open>right=True\<close>: the intervals are closed on the right, and the first one also holds its
  left edge. The position of a value is found by \<^verbatim>\<open>searchsorted(side='left')\<close>, the number
  of edges below the value; a value below the first edge or above the last one gets no
  bin. Edges that are not strictly increasing raise \<^verbatim>\<open>ValueError\<close>.
\<close>

definition searchsorted_left :: "real list \<Rightarrow> real \<Rightarrow> nat" where
  "searchsorted_left bins x = length (filter (\<lambda>b. b < x) bins)"

fun cut_index :: "real list \<Rightarrow> fval \<Rightarrow> nat option" where
  "cut_index (b0 # bs) (Fin x) =
     (let ids = (if x = b0 then 1 else searchsorted_left (b0 # bs) x)
      in if ids = length (b0 # bs) \<or> ids = 0 then None else Some (ids - 1))"
| "cut_index bins v = None"

datatype binning = Bins "result_row list list" | NoBins | BinError

definition pd_cut :: "real list \<Rightarrow> result_row list \<Rightarrow> binning" where
  "pd_cut bins df =
     (if sorted_wrt (<) bins
      then Bins (map (\<lambda>i. filter (\<lambda>r. cut_index bins (selisih_rata2 r) = Some i) df)
                     [0..<length bins - 1])
      else BinError)"

text \<open>The largest value that is not missing (\<^verbatim>\<open>Series.max\<close>), \<open>NaN\<close> when there is none.\<close>

definition max_skipna :: "fval list \<Rightarrow> fval" where
  "max_skipna vs =
     (case filter notna vs of
        [] \<Rightarrow> NaN
      | x # xs \<Rightarrow> foldl (\<lambda>a b. if fle a b then b else a) x xs)"

text \<open>
  The four bins of the result, each with its rows (the displayed counts are the
  lengths). For \<^verbatim>\<open>>=\<close> the edges run from the threshold to the largest value; when that
  is infinite or missing the edges are not distinct numbers and \<^verbatim>\<open>pd.cut\<close> raises.
\<close>

definition distribution :: "operator \<Rightarrow> real \<Rightarrow> result_row list \<Rightarrow> binning" where
  "distribution op threshold merged =
     (if merged = [] then NoBins
      else case op of
        OpLe \<Rightarrow>
          (let quarter = (if threshold > 0 then threshold / 4 else 1)
           in pd_cut [0, quarter, 2 * quarter, 3 * quarter, threshold + 1 / 1000000] merged)
      | OpGe \<Rightarrow>
          (case max_skipna (map selisih_rata2 merged) of
             Fin max_val \<Rightarrow>
               (let span = max_val - threshold
                in if span \<le> 0 then NoBins
                   else (let quarter = span / 4
                         in pd_cut [threshold, threshold + quarter, threshold + 2 * quarter,
                                    threshold + 3 * quarter, max_val + 1 / 1000000] merged))
           | NInf \<Rightarrow> NoBins
           | v \<Rightarrow> BinError)
      | OpEq \<Rightarrow> NoBins)"

text \<open>The four buckets as the specification words them for threshold 20.\<close>

definition bucket_spec :: "real \<Rightarrow> nat option" where
  "bucket_spec x =
     (if 0 \<le> x \<and> x < 5 then Some 0
      else if 5 \<le> x \<and> x < 10 then Some 1
      else if 10 \<le> x \<and> x < 15 then Some 2
      else if 15 \<le> x \<and> x \<le> 20 then Some 3
      else None)"

subsection \<open>Properties of the percentage change and the filters\<close>

lemma fdiv_NaN_right: "fdiv a NaN = NaN"
  by (cases a) simp_all

lemma selisih_zero: "selisih (Fin 0) avg2 = NaN"
  by (simp add: selisih_def replace_zero_def fdiv_NaN_right)

lemma kept_not_negative: "notna v \<Longrightarrow> fge v (Fin 0) \<Longrightarrow> \<not> is_neg v"
  by (cases v) (simp_all add: fge_def)

lemma drop_rows_kept:
  "x \<in> set (drop_rows df) \<Longrightarrow> notna (selisih_rata2 x) \<and> \<not> is_neg (selisih_rata2 x)"
  by (auto simp: drop_rows_def kept_not_negative)

lemma threshold_filter_subset: "set (threshold_filter op threshold tol df) \<subseteq> set df"
  by (cases op) (auto simp: threshold_filter_def)

lemma penurunan_subset:
  "set (penurunan df op threshold tol) \<subseteq> set (drop_rows (map compute_row df))"
  unfolding penurunan_def by (rule threshold_filter_subset)

lemma penurunan_kept:
  "x \<in> set (penurunan df op threshold tol) \<Longrightarrow>
     notna (selisih_rata2 x) \<and> \<not> is_neg (selisih_rata2 x)"
  using penurunan_subset drop_rows_kept by blast

lemma compute_row_zero:
  "rata2_periode1 (compute_row r) = Fin 0 \<Longrightarrow> selisih_rata2 (compute_row r) = NaN"
  by (simp add: compute_row_def Let_def selisih_zero)

text \<open>
  C3. When the Period 1 average of a row is 0, the divisor has been replaced by the
  missing value and the percentage change is missing (not an infinity, which the
  division by zero itself would give); the row is not among the rows kept by the
  drop, nor in the filtered result under any operator, threshold and tolerance.
\<close>

theorem zero_average_missing_and_dropped:
  "rata2_periode1 (compute_row r) = Fin 0 \<longrightarrow>
     selisih_rata2 (compute_row r) = NaN
     \<and> compute_row r \<notin> set (drop_rows (map compute_row df))
     \<and> compute_row r \<notin> set (penurunan df op threshold tol)"
proof
  assume z: "rata2_periode1 (compute_row r) = Fin 0"
  then have na: "selisih_rata2 (compute_row r) = NaN" by (rule compute_row_zero)
  then have 1: "compute_row r \<notin> set (drop_rows (map compute_row df))"
    using drop_rows_kept [of "compute_row r" "map compute_row df"] by auto
  then have "compute_row r \<notin> set (penurunan df op threshold tol)"
    using penurunan_subset by blast
  with na 1 show "selisih_rata2 (compute_row r) = NaN
     \<and> compute_row r \<notin> set (drop_rows (map compute_row df))
     \<and> compute_row r \<notin> set (penurunan df op threshold tol)"
    by blast
qed

theorem zero_average_missing_and_dropped_witness:
  "rata2_periode1 (compute_row \<lparr>idpel = ''X'', period1 = [Fin 0, NaN], period2 = [Fin 80]\<rparr>) = Fin 0
   \<and> selisih_rata2 (compute_row \<lparr>idpel = ''X'', period1 = [Fin 0, NaN], period2 = [Fin 80]\<rparr>) = NaN
   \<and> fdiv (Fin (0 - 80)) (Fin 0) = NInf
   \<and> compute_row \<lparr>idpel = ''X'', period1 = [Fin 0, NaN], period2 = [Fin 80]\<rparr>
       \<notin> set (penurunan [\<lparr>idpel = ''X'', period1 = [Fin 0, NaN], period2 = [Fin 80]\<rparr>] OpLe 20 (1 / 10))"
proof -
  let ?r = "\<lparr>idpel = ''X'', period1 = [Fin 0, NaN], period2 = [Fin 80]\<rparr>"
  have z: "rata2_periode1 (compute_row ?r) = Fin 0"
    by (simp add: compute_row_def mean_skipna_def Let_def)
  from zero_average_missing_and_dropped [of ?r "[?r]" OpLe 20 "1 / 10"] z
  have "selisih_rata2 (compute_row ?r) = NaN"
    "compute_row ?r \<notin> set (penurunan [?r] OpLe 20 (1 / 10))"
    by blast+
  moreover have "fdiv (Fin (0 - 80)) (Fin 0) = NInf" by simp
  ultimately show ?thesis using z by blast
qed

lemma merge_inner_rows:
  "x \<in> set (merge_inner df lbkb_ids) \<Longrightarrow> \<exists>r \<in> set df. selisih_rata2 x = selisih_rata2 r"
  by (auto simp: merge_inner_def split: if_splits)

lemma df_merged_rows:
  assumes "df_merged m df lbkb_ids id_keep = Some merged" "x \<in> set merged"
  shows "\<exists>r \<in> set df. selisih_rata2 x = selisih_rata2 r"
proof (cases m)
  case PenurunanSaja
  with assms show ?thesis by (auto simp: df_merged_def split: option.splits)
next
  case LbkbSaja
  with assms show ?thesis by (simp add: df_merged_def)
next
  case Gabungan
  with assms have "x \<in> set (merge_inner df lbkb_ids)"
    by (auto simp: df_merged_def split: option.splits)
  then show ?thesis by (rule merge_inner_rows)
qed

lemma pd_cut_rows:
  "pd_cut edges merged = Bins bs \<Longrightarrow> b \<in> set bs \<Longrightarrow> x \<in> set b \<Longrightarrow> x \<in> set merged"
  by (auto simp: pd_cut_def split: if_splits)

lemma distribution_rows:
  assumes "distribution op threshold merged = Bins bs" "b \<in> set bs" "x \<in> set b"
  shows "x \<in> set merged"
proof (cases op)
  case OpLe
  with assms show ?thesis
    by (auto simp: distribution_def Let_def split: if_splits dest: pd_cut_rows)
next
  case OpGe
  with assms show ?thesis
    by (auto simp: distribution_def Let_def split: if_splits fval.splits dest: pd_cut_rows)
next
  case OpEq
  with assms show ?thesis by (simp add: distribution_def split: if_splits)
qed

text \<open>
  C4. Whatever the table, the operator, the threshold and the tolerance, every row of
  the filtered result has a percentage change that is not missing and not negative,
  the filtered result being drawn from the rows that the drop has kept; and so has
  every row in every bin of the distribution of the merged result, in either mode
  that shows one.
\<close>

theorem no_missing_or_negative_rows:
  "(\<forall>x \<in> set (penurunan df op threshold tol).
      x \<in> set (drop_rows (map compute_row df))
      \<and> notna (selisih_rata2 x) \<and> \<not> is_neg (selisih_rata2 x))
   \<and> (\<forall>merged bs. df_merged m (penurunan df op threshold tol) lbkb_ids id_keep = Some merged
          \<and> distribution op threshold merged = Bins bs \<longrightarrow>
        (\<forall>b \<in> set bs. \<forall>x \<in> set b. notna (selisih_rata2 x) \<and> \<not> is_neg (selisih_rata2 x)))"
proof (intro conjI ballI allI impI)
  fix x assume "x \<in> set (penurunan df op threshold tol)"
  then show "x \<in> set (drop_rows (map compute_row df))" "notna (selisih_rata2 x)"
    "\<not> is_neg (selisih_rata2 x)"
    using penurunan_subset penurunan_kept by blast+
next
  fix merged bs b x
  assume a: "df_merged m (penurunan df op threshold tol) lbkb_ids id_keep = Some merged
          \<and> distribution op threshold merged = Bins bs"
    and b: "b \<in> set bs" "x \<in> set b"
  from a b have "x \<in> set merged" using distribution_rows by blast
  with a obtain r where "r \<in> set (penurunan df op threshold tol)"
    "selisih_rata2 x = selisih_rata2 r"
    using df_merged_rows by blast
  then show "notna (selisih_rata2 x)" "\<not> is_neg (selisih_rata2 x)"
    using penurunan_kept [of r] by simp_all
qed

theorem no_missing_or_negative_rows_witness:
  "penurunan [\<lparr>idpel = ''X'', period1 = [Fin 100], period2 = [Fin 80]\<rparr>,
              \<lparr>idpel = ''Y'', period1 = [Fin 100], period2 = [Fin 120]\<rparr>,
              \<lparr>idpel = ''Z'', period1 = [Fin 0], period2 = [Fin 50]\<rparr>] OpLe 20 (1 / 10)
     = [\<lparr>rid = ''X'', rata2_periode1 = Fin 100, rata2_periode2 = Fin 80, selisih_rata2 = Fin 20\<rparr>]
   \<and> selisih_rata2 (compute_row \<lparr>idpel = ''Y'', period1 = [Fin 100], period2 = [Fin 120]\<rparr>)
       = Fin (- 20)
   \<and> notna (selisih_rata2
       \<lparr>rid = ''X'', rata2_periode1 = Fin 100, rata2_periode2 = Fin 80, selisih_rata2 = Fin 20\<rparr>)
   \<and> \<not> is_neg (selisih_rata2
       \<lparr>rid = ''X'', rata2_periode1 = Fin 100, rata2_periode2 = Fin 80, selisih_rata2 = Fin 20\<rparr>)"
proof -
  let ?df = "[\<lparr>idpel = ''X'', period1 = [Fin 100], period2 = [Fin 80]\<rparr>,
              \<lparr>idpel = ''Y'', period1 = [Fin 100], period2 = [Fin 120]\<rparr>,
              \<lparr>idpel = ''Z'', period1 = [Fin 0], period2 = [Fin 50]\<rparr>]"
  let ?x = "\<lparr>rid = ''X'', rata2_periode1 = Fin 100, rata2_periode2 = Fin 80, selisih_rata2 = Fin 20\<rparr>"
  have e: "penurunan ?df OpLe 20 (1 / 10) = [?x]"
    by (simp add: penurunan_def threshold_filter_def drop_rows_def compute_row_def
        mean_skipna_def selisih_def replace_zero_def fsub_def fge_def Let_def)
  have y: "selisih_rata2 (compute_row \<lparr>idpel = ''Y'', period1 = [Fin 100], period2 = [Fin 120]\<rparr>)
       = Fin (- 20)"
    by (simp add: compute_row_def mean_skipna_def selisih_def replace_zero_def fsub_def Let_def)
  from no_missing_or_negative_rows [of ?df OpLe 20 "1 / 10" PenurunanSaja "[]" None]
  have "\<forall>x \<in> set (penurunan ?df OpLe 20 (1 / 10)).
      notna (selisih_rata2 x) \<and> \<not> is_neg (selisih_rata2 x)"
    by blast
  then have "notna (selisih_rata2 ?x) \<and> \<not> is_neg (selisih_rata2 ?x)"
    unfolding e by simp
  with e y show ?thesis by blast
qed

lemma threshold_filter_keeps:
  assumes "selisih_rata2 x = Fin p"
  shows "x \<in> set (threshold_filter OpLe threshold tol df) \<longleftrightarrow> x \<in> set df \<and> p \<le> threshold"
    and "x \<in> set (threshold_filter OpGe threshold tol df) \<longleftrightarrow> x \<in> set df \<and> threshold \<le> p"
    and "x \<in> set (threshold_filter OpEq threshold tol df) \<longleftrightarrow>
           x \<in> set df \<and> \<bar>p - threshold\<bar> \<le> tol + \<bar>threshold\<bar> / 100000"
  using assms by (auto simp: threshold_filter_def fge_def rtol_def)

text \<open>
  C7. For \<^verbatim>\<open><=\<close> and \<^verbatim>\<open>>=\<close> the filter keeps the rows at or below, and at or above, the
  threshold. For \<^verbatim>\<open>==\<close> it keeps a row when the distance to the threshold is at most
  the tolerance plus \<open>1e-05\<close> times the threshold, the default relative tolerance of
  \<^verbatim>\<open>np.isclose\<close>: with threshold 20 and tolerance 0.1, a customer whose averages are 100
  and 79.8999 has the change 20.1001, farther than 0.1 from 20, and is kept.
\<close>

theorem isclose_keeps_row_outside_tolerance:
  "penurunan [\<lparr>idpel = ''X'', period1 = [Fin 100], period2 = [Fin (798999 / 10000)]\<rparr>]
       OpEq 20 (1 / 10)
     = [\<lparr>rid = ''X'', rata2_periode1 = Fin 100, rata2_periode2 = Fin (798999 / 10000),
          selisih_rata2 = Fin (201001 / 10000)\<rparr>]
   \<and> \<not> \<bar>201001 / 10000 - 20\<bar> \<le> (1 / 10 :: real)"
  by (simp add: penurunan_def threshold_filter_def drop_rows_def compute_row_def
      mean_skipna_def selisih_def replace_zero_def fsub_def fge_def rtol_def Let_def)

subsection \<open>Properties of the bins\<close>

definition edges20 :: "real list" where
  "edges20 = [0, 5, 10, 15, 20 + 1 / 1000000]"

lemma distribution_le_20:
  "merged \<noteq> [] \<Longrightarrow> distribution OpLe 20 merged =
     Bins (map (\<lambda>i. filter (\<lambda>r. cut_index edges20 (selisih_rata2 r) = Some i) merged) [0, 1, 2, 3])"
  by (simp add: distribution_def pd_cut_def edges20_def Let_def numeral_2_eq_2 numeral_3_eq_3)

lemma cut_index_20:
  "cut_index edges20 (Fin x) =
     (if x < 0 \<or> 20 + 1 / 1000000 < x then None
      else Some (if x \<le> 5 then 0 else if x \<le> 10 then 1 else if x \<le> 15 then 2 else 3))"
  by (auto simp: edges20_def searchsorted_left_def Let_def)

lemma cut_index_20_buckets:
  "cut_index edges20 v = Some 0 \<longleftrightarrow> (\<exists>x. v = Fin x \<and> 0 \<le> x \<and> x \<le> 5)"
  "cut_index edges20 v = Some 1 \<longleftrightarrow> (\<exists>x. v = Fin x \<and> 5 < x \<and> x \<le> 10)"
  "cut_index edges20 v = Some 2 \<longleftrightarrow> (\<exists>x. v = Fin x \<and> 10 < x \<and> x \<le> 15)"
  "cut_index edges20 v = Some 3 \<longleftrightarrow> (\<exists>x. v = Fin x \<and> 15 < x \<and> x \<le> 20 + 1 / 1000000)"
proof -
  have other: "cut_index edges20 v = None" if "\<forall>x. v \<noteq> Fin x"
    using that by (cases v) (simp_all add: edges20_def)
  show "cut_index edges20 v = Some 0 \<longleftrightarrow> (\<exists>x. v = Fin x \<and> 0 \<le> x \<and> x \<le> 5)"
    using other by (cases v) (simp_all add: cut_index_20)
  show "cut_index edges20 v = Some 1 \<longleftrightarrow> (\<exists>x. v = Fin x \<and> 5 < x \<and> x \<le> 10)"
    using other by (cases v) (simp_all add: cut_index_20)
  show "cut_index edges20 v = Some 2 \<longleftrightarrow> (\<exists>x. v = Fin x \<and> 10 < x \<and> x \<le> 15)"
    using other by (cases v) (simp_all add: cut_index_20)
  show "cut_index edges20 v = Some 3 \<longleftrightarrow> (\<exists>x. v = Fin x \<and> 15 < x \<and> x \<le> 20 + 1 / 1000000)"
    using other by (cases v) (simp_all add: cut_index_20)
qed

text \<open>
  C6, as the code has it. For \<^verbatim>\<open><=\<close> with threshold 20 the quarter is 5, the edges are
  0, 5, 10, 15 and 20.000001, and the intervals are closed on the right: a row of the
  merged result is in the first bucket exactly when its value lies in [0, 5], in the
  second exactly when it lies in (5, 10], in the third exactly when it lies in (10, 15],
  and in the fourth exactly when it lies in (15, 20.000001]; a missing or infinite value
  and a value outside [0, 20.000001] are in no bucket. So every value in [0, 20] is in
  exactly one bucket, the value 20 in the last one; a value equal to 5, 10 or 15 is in
  the bucket that ends there, and of the lower edges only 0 belongs to its bucket.
\<close>

theorem quarter_bins_threshold_20:
  "r \<in> set merged \<longrightarrow>
     (\<exists>bs. distribution OpLe 20 merged = Bins bs \<and> length bs = 4
        \<and> (r \<in> set (bs ! 0) \<longleftrightarrow> (\<exists>x. selisih_rata2 r = Fin x \<and> 0 \<le> x \<and> x \<le> 5))
        \<and> (r \<in> set (bs ! 1) \<longleftrightarrow> (\<exists>x. selisih_rata2 r = Fin x \<and> 5 < x \<and> x \<le> 10))
        \<and> (r \<in> set (bs ! 2) \<longleftrightarrow> (\<exists>x. selisih_rata2 r = Fin x \<and> 10 < x \<and> x \<le> 15))
        \<and> (r \<in> set (bs ! 3) \<longleftrightarrow>
             (\<exists>x. selisih_rata2 r = Fin x \<and> 15 < x \<and> x \<le> 20 + 1 / 1000000)))"
proof
  assume r: "r \<in> set merged"
  let ?bs = "map (\<lambda>i. filter (\<lambda>r. cut_index edges20 (selisih_rata2 r) = Some i) merged) [0, 1, 2, 3]"
  from r have "merged \<noteq> []" by auto
  then have d: "distribution OpLe 20 merged = Bins ?bs" by (rule distribution_le_20)
  have n: "?bs ! 0 = filter (\<lambda>r. cut_index edges20 (selisih_rata2 r) = Some 0) merged"
    "?bs ! 1 = filter (\<lambda>r. cut_index edges20 (selisih_rata2 r) = Some 1) merged"
    "?bs ! 2 = filter (\<lambda>r. cut_index edges20 (selisih_rata2 r) = Some 2) merged"
    "?bs ! 3 = filter (\<lambda>r. cut_index edges20 (selisih_rata2 r) = Some 3) merged"
    by (simp_all add: numeral_2_eq_2 numeral_3_eq_3)
  have 0: "r \<in> set (?bs ! 0) \<longleftrightarrow> (\<exists>x. selisih_rata2 r = Fin x \<and> 0 \<le> x \<and> x \<le> 5)"
    unfolding n using r by (simp only: set_filter mem_Collect_eq cut_index_20_buckets simp_thms)
  have 1: "r \<in> set (?bs ! 1) \<longleftrightarrow> (\<exists>x. selisih_rata2 r = Fin x \<and> 5 < x \<and> x \<le> 10)"
    unfolding n using r by (simp only: set_filter mem_Collect_eq cut_index_20_buckets simp_thms)
  have 2: "r \<in> set (?bs ! 2) \<longleftrightarrow> (\<exists>x. selisih_rata2 r = Fin x \<and> 10 < x \<and> x \<le> 15)"
    unfolding n using r by (simp only: set_filter mem_Collect_eq cut_index_20_buckets simp_thms)
  have 3: "r \<in> set (?bs ! 3) \<longleftrightarrow>
      (\<exists>x. selisih_rata2 r = Fin x \<and> 15 < x \<and> x \<le> 20 + 1 / 1000000)"
    unfolding n using r by (simp only: set_filter mem_Collect_eq cut_index_20_buckets simp_thms)
  have "length ?bs = 4" by simp
  with d 0 1 2 3 show "\<exists>bs. distribution OpLe 20 merged = Bins bs \<and> length bs = 4
        \<and> (r \<in> set (bs ! 0) \<longleftrightarrow> (\<exists>x. selisih_rata2 r = Fin x \<and> 0 \<le> x \<and> x \<le> 5))
        \<and> (r \<in> set (bs ! 1) \<longleftrightarrow> (\<exists>x. selisih_rata2 r = Fin x \<and> 5 < x \<and> x \<le> 10))
        \<and> (r \<in> set (bs ! 2) \<longleftrightarrow> (\<exists>x. selisih_rata2 r = Fin x \<and> 10 < x \<and> x \<le> 15))
        \<and> (r \<in> set (bs ! 3) \<longleftrightarrow>
             (\<exists>x. selisih_rata2 r = Fin x \<and> 15 < x \<and> x \<le> 20 + 1 / 1000000))"
    by blast
qed

theorem quarter_bins_threshold_20_witness:
  "\<exists>bs. distribution OpLe 20
          [\<lparr>rid = ''X'', rata2_periode1 = Fin 100, rata2_periode2 = Fin 80,
             selisih_rata2 = Fin 20\<rparr>] = Bins bs
        \<and> length bs = 4
        \<and> \<lparr>rid = ''X'', rata2_periode1 = Fin 100, rata2_periode2 = Fin 80,
             selisih_rata2 = Fin 20\<rparr> \<in> set (bs ! 3)
        \<and> \<lparr>rid = ''X'', rata2_periode1 = Fin 100, rata2_periode2 = Fin 80,
             selisih_rata2 = Fin 20\<rparr> \<notin> set (bs ! 2)"
proof -
  let ?r = "\<lparr>rid = ''X'', rata2_periode1 = Fin 100, rata2_periode2 = Fin 80, selisih_rata2 = Fin 20\<rparr>"
  have h: "?r \<in> set [?r]" by simp
  from quarter_bins_threshold_20 [of ?r "[?r]"] h
  obtain bs where bs: "distribution OpLe 20 [?r] = Bins bs" "length bs = 4"
    "?r \<in> set (bs ! 2) \<longleftrightarrow> (\<exists>x. selisih_rata2 ?r = Fin x \<and> 10 < x \<and> x \<le> 15)"
    "?r \<in> set (bs ! 3) \<longleftrightarrow> (\<exists>x. selisih_rata2 ?r = Fin x \<and> 15 < x \<and> x \<le> 20 + 1 / 1000000)"
    by blast
  from bs(3) have "?r \<notin> set (bs ! 2)" by simp
  moreover from bs(4) have "?r \<in> set (bs ! 3)" by simp
  ultimately show ?thesis using bs(1,2) by blast
qed

text \<open>
  The value 5 is put into the first bucket; the buckets of the specification put it
  into the second.
\<close>

theorem quarter_bins_counterexample:
  "distribution OpLe 20
     [\<lparr>rid = ''X'', rata2_periode1 = Fin 100, rata2_periode2 = Fin 95, selisih_rata2 = Fin 5\<rparr>]
   = Bins [[\<lparr>rid = ''X'', rata2_periode1 = Fin 100, rata2_periode2 = Fin 95,
              selisih_rata2 = Fin 5\<rparr>], [], [], []]
   \<and> bucket_spec 5 = Some 1"
  by (simp add: distribution_le_20 edges20_def searchsorted_left_def Let_def bucket_spec_def)


end
